theory Spec2Isabelle
  imports Complex_Main
begin

section \<open>Numbers, references and nodes\<close>

text \<open>
  The capacity handed to the constructor is a TypeScript \<^verbatim>\<open>number\<close>. Only two
  comparisons are ever made with it (\<^verbatim>\<open>capacity <= 0\<close> and
  \<^verbatim>\<open>this._size > this.capacity\<close>), and both are exact on doubles, so a number is
  modelled by its mathematical value: a finite rational, one of the two infinities, or
  NaN. Every comparison with NaN is false.
\<close>

datatype number = Finite rat | PosInfinity | NegInfinity | NaN

fun le_zero :: "number \<Rightarrow> bool" where
  "le_zero (Finite r) = (r \<le> 0)"
| "le_zero PosInfinity = False"
| "le_zero NegInfinity = True"
| "le_zero NaN = False"

text \<open>\<^verbatim>\<open>n > c\<close> for an integer-valued \<open>n\<close> (the size counter) and a number \<open>c\<close>.\<close>

fun exceeds :: "int \<Rightarrow> number \<Rightarrow> bool" where
  "exceeds n (Finite r) = (r < of_int n)"
| "exceeds n PosInfinity = False"
| "exceeds n NegInfinity = True"
| "exceeds n NaN = False"

text \<open>\<^verbatim>\<open>n <= c\<close>, the comparison the capacity invariant is stated with.\<close>

fun at_most :: "int \<Rightarrow> number \<Rightarrow> bool" where
  "at_most n (Finite r) = (of_int n \<le> r)"
| "at_most n PosInfinity = True"
| "at_most n NegInfinity = False"
| "at_most n NaN = False"

text \<open>The capacities the specification speaks of: the positive integers.\<close>

fun positive_integer :: "number \<Rightarrow> bool" where
  "positive_integer (Finite r) = (0 < r \<and> of_int \<lfloor>r\<rfloor> = r)"
| "positive_integer PosInfinity = False"
| "positive_integer NegInfinity = False"
| "positive_integer NaN = False"

text \<open>The finite numbers greater than zero, integer or not.\<close>

fun positive_finite :: "number \<Rightarrow> bool" where
  "positive_finite (Finite r) = (0 < r)"
| "positive_finite PosInfinity = False"
| "positive_finite NegInfinity = False"
| "positive_finite NaN = False"

text \<open>
  A list index is a \<^verbatim>\<open>number\<close> too. The comparisons \<^verbatim>\<open>x < q\<close>, \<^verbatim>\<open>x >= q\<close> and
  \<^verbatim>\<open>x > q\<close> of a number \<open>x\<close> with a finite \<open>q\<close>:
\<close>

fun below :: "number \<Rightarrow> rat \<Rightarrow> bool" where
  "below (Finite r) q = (r < q)"
| "below PosInfinity q = False"
| "below NegInfinity q = True"
| "below NaN q = False"

fun at_least :: "number \<Rightarrow> rat \<Rightarrow> bool" where
  "at_least (Finite r) q = (q \<le> r)"
| "at_least PosInfinity q = True"
| "at_least NegInfinity q = False"
| "at_least NaN q = False"

fun above :: "number \<Rightarrow> rat \<Rightarrow> bool" where
  "above (Finite r) q = (q < r)"
| "above PosInfinity q = True"
| "above NegInfinity q = False"
| "above NaN q = False"

text \<open>
  Objects live in a store: a reference is an address, \<^verbatim>\<open>null\<close> is \<open>None\<close>, and
  \<^verbatim>\<open>new LRUNode(key, value)\<close> takes the next unused address. A reference held by the
  running program always points at an object; the store is nevertheless a partial map, and
  the accessors below are total: a field read at an unallocated address gives \<open>None\<close>
  and a field write there changes nothing.
\<close>

type_synonym ref = nat

record ('k, 'v) LRUNode =
  nkey :: 'k
  nvalue :: 'v
  nprev :: "ref option"
  nnext :: "ref option"

type_synonym ('k, 'v) store = "ref \<rightharpoonup> ('k, 'v) LRUNode"

definition get_prev :: "('k, 'v) store \<Rightarrow> ref \<Rightarrow> ref option" where
  "get_prev h r = (case h r of None \<Rightarrow> None | Some n \<Rightarrow> nprev n)"

definition get_next :: "('k, 'v) store \<Rightarrow> ref \<Rightarrow> ref option" where
  "get_next h r = (case h r of None \<Rightarrow> None | Some n \<Rightarrow> nnext n)"

definition get_key :: "('k, 'v) store \<Rightarrow> ref \<Rightarrow> 'k option" where
  "get_key h r = map_option nkey (h r)"

definition get_value :: "('k, 'v) store \<Rightarrow> ref \<Rightarrow> 'v option" where
  "get_value h r = map_option nvalue (h r)"

definition set_prev :: "('k, 'v) store \<Rightarrow> ref \<Rightarrow> ref option \<Rightarrow> ('k, 'v) store" where
  "set_prev h r p = (case h r of None \<Rightarrow> h | Some n \<Rightarrow> h(r \<mapsto> n\<lparr>nprev := p\<rparr>))"

definition set_next :: "('k, 'v) store \<Rightarrow> ref \<Rightarrow> ref option \<Rightarrow> ('k, 'v) store" where
  "set_next h r p = (case h r of None \<Rightarrow> h | Some n \<Rightarrow> h(r \<mapsto> n\<lparr>nnext := p\<rparr>))"

definition set_value :: "('k, 'v) store \<Rightarrow> ref \<Rightarrow> 'v \<Rightarrow> ('k, 'v) store" where
  "set_value h r v = (case h r of None \<Rightarrow> h | Some n \<Rightarrow> h(r \<mapsto> n\<lparr>nvalue := v\<rparr>))"

section \<open>The LRU cache\<close>

text \<open>
  The fields of \<^verbatim>\<open>class LRUCache\<close>, the store, and the allocator's next address. The
  counters \<^verbatim>\<open>_size\<close>, \<^verbatim>\<open>_hits\<close>, \<^verbatim>\<open>_misses\<close> and \<^verbatim>\<open>_evictions\<close> are
  integers (exact in a double below \<open>2 ^ 53\<close>).
\<close>

record ('k, 'v) LRUCache =
  capacity :: number
  cache :: "'k \<rightharpoonup> ref"
  head :: "ref option"
  tail :: "ref option"
  lru_size :: int
  hits :: int
  misses :: int
  evictions :: int
  heap :: "('k, 'v) store"
  fresh :: ref

datatype error = InvalidCapacity | TypeError

definition new_LRUCache :: "number \<Rightarrow> error + ('k, 'v) LRUCache" where
  "new_LRUCache c =
     (if le_zero c then Inl InvalidCapacity
      else Inr \<lparr>capacity = c, cache = Map.empty, head = None, tail = None, lru_size = 0,
                hits = 0, misses = 0, evictions = 0, heap = Map.empty, fresh = 0\<rparr>)"

definition hitRate :: "('k, 'v) LRUCache \<Rightarrow> rat" where
  "hitRate s =
     (let total = hits s + misses s
      in if total = 0 then 0 else of_int (hits s) / of_int total)"

subsection \<open>Private helpers\<close>

definition addToHead :: "ref \<Rightarrow> ('k, 'v) LRUCache \<Rightarrow> ('k, 'v) LRUCache" where
  "addToHead node s =
     (let h1 = set_prev (heap s) node None;
          h2 = set_next h1 node (head s);
          h3 = (case head s of None \<Rightarrow> h2 | Some old \<Rightarrow> set_prev h2 old (Some node));
          s1 = s\<lparr>heap := h3, head := Some node\<rparr>
      in if tail s1 = None then s1\<lparr>tail := Some node\<rparr> else s1)"

definition removeNode :: "ref \<Rightarrow> ('k, 'v) LRUCache \<Rightarrow> ('k, 'v) LRUCache" where
  "removeNode node s =
     (let s1 = (case get_prev (heap s) node of
                  Some p \<Rightarrow> s\<lparr>heap := set_next (heap s) p (get_next (heap s) node)\<rparr>
                | None \<Rightarrow> s\<lparr>head := get_next (heap s) node\<rparr>);
          s2 = (case get_next (heap s1) node of
                  Some n \<Rightarrow> s1\<lparr>heap := set_prev (heap s1) n (get_prev (heap s1) node)\<rparr>
                | None \<Rightarrow> s1\<lparr>tail := get_prev (heap s1) node\<rparr>)
      in s2\<lparr>heap := set_next (set_prev (heap s2) node None) node None\<rparr>)"

definition moveToHead :: "ref \<Rightarrow> ('k, 'v) LRUCache \<Rightarrow> ('k, 'v) LRUCache" where
  "moveToHead node s = (if head s = Some node then s else addToHead node (removeNode node s))"

text \<open>
  \<^verbatim>\<open>evictTail\<close> reads the key of the tail node before it unlinks it. (The branch for a
  tail that is not allocated stands for no run of the program.)
\<close>

definition evictTail :: "('k, 'v) LRUCache \<Rightarrow> ('k, 'v) LRUCache" where
  "evictTail s =
     (case tail s of
        None \<Rightarrow> s
      | Some t \<Rightarrow>
          (case get_key (heap s) t of
             None \<Rightarrow> s
           | Some evictedKey \<Rightarrow>
               (let s1 = removeNode t s;
                    s2 = s1\<lparr>cache := (cache s1)(evictedKey := None)\<rparr>;
                    s3 = s2\<lparr>lru_size := lru_size s2 - 1\<rparr>
                in s3\<lparr>evictions := evictions s3 + 1\<rparr>)))"

subsection \<open>Public methods\<close>

text \<open>A method that returns a value and mutates the cache returns the pair.\<close>

definition get :: "'k \<Rightarrow> ('k, 'v) LRUCache \<Rightarrow> 'v option \<times> ('k, 'v) LRUCache" where
  "get key s =
     (case cache s key of
        None \<Rightarrow> (None, s\<lparr>misses := misses s + 1\<rparr>)
      | Some node \<Rightarrow>
          (let s1 = s\<lparr>hits := hits s + 1\<rparr>;
               s2 = moveToHead node s1
           in (get_value (heap s2) node, s2)))"

definition put :: "'k \<Rightarrow> 'v \<Rightarrow> ('k, 'v) LRUCache \<Rightarrow> ('k, 'v) LRUCache" where
  "put key v s =
     (case cache s key of
        Some node \<Rightarrow> moveToHead node (s\<lparr>heap := set_value (heap s) node v\<rparr>)
      | None \<Rightarrow>
          (let node = fresh s;
               s1 = s\<lparr>heap := (heap s)(node \<mapsto>
                        \<lparr>nkey = key, nvalue = v, nprev = None, nnext = None\<rparr>),
                      fresh := node + 1\<rparr>;
               s2 = s1\<lparr>cache := (cache s1)(key \<mapsto> node)\<rparr>;
               s3 = addToHead node s2;
               s4 = s3\<lparr>lru_size := lru_size s3 + 1\<rparr>
           in if exceeds (lru_size s4) (capacity s4) then evictTail s4 else s4))"

definition has :: "'k \<Rightarrow> ('k, 'v) LRUCache \<Rightarrow> bool" where
  "has key s = (cache s key \<noteq> None)"

definition delete :: "'k \<Rightarrow> ('k, 'v) LRUCache \<Rightarrow> bool \<times> ('k, 'v) LRUCache" where
  "delete key s =
     (case cache s key of
        None \<Rightarrow> (False, s)
      | Some node \<Rightarrow>
          (let s1 = removeNode node s;
               s2 = s1\<lparr>cache := (cache s1)(key := None)\<rparr>
           in (True, s2\<lparr>lru_size := lru_size s2 - 1\<rparr>)))"

definition peek :: "'k \<Rightarrow> ('k, 'v) LRUCache \<Rightarrow> 'v option" where
  "peek key s = (case cache s key of None \<Rightarrow> None | Some node \<Rightarrow> get_value (heap s) node)"

definition getMostRecent :: "('k, 'v) LRUCache \<Rightarrow> ('k \<times> 'v) option" where
  "getMostRecent s =
     (case head s of
        None \<Rightarrow> None
      | Some r \<Rightarrow> map_option (\<lambda>n. (nkey n, nvalue n)) (heap s r))"

definition getLeastRecent :: "('k, 'v) LRUCache \<Rightarrow> ('k \<times> 'v) option" where
  "getLeastRecent s =
     (case tail s of
        None \<Rightarrow> None
      | Some r \<Rightarrow> map_option (\<lambda>n. (nkey n, nvalue n)) (heap s r))"

text \<open>
  The loop of \<^verbatim>\<open>clear\<close> follows \<^verbatim>\<open>next\<close> links until it meets \<^verbatim>\<open>null\<close>; on a
  cyclic store it would not return, so it is a partial function and \<open>None\<close> stands for
  a loop that never ends.
\<close>

partial_function (option) clear_loop ::
  "('k, 'v) store \<Rightarrow> ref option \<Rightarrow> ('k, 'v) store option" where
  "clear_loop h current =
     (case current of
        None \<Rightarrow> Some h
      | Some c \<Rightarrow>
          (let nxt = get_next h c
           in clear_loop (set_next (set_prev h c None) c None) nxt))"

declare clear_loop.simps [code]

definition clear :: "('k, 'v) LRUCache \<Rightarrow> ('k, 'v) LRUCache option" where
  "clear s =
     (case clear_loop (heap s) (head s) of
        None \<Rightarrow> None
      | Some h \<Rightarrow>
          Some (s\<lparr>heap := h, cache := Map.empty, head := None, tail := None, lru_size := 0,
                  hits := 0, misses := 0, evictions := 0\<rparr>))"

definition resetStats :: "('k, 'v) LRUCache \<Rightarrow> ('k, 'v) LRUCache" where
  "resetStats s = s\<lparr>hits := 0, misses := 0, evictions := 0\<rparr>"

text \<open>
  \<^verbatim>\<open>entries()\<close> and \<^verbatim>\<open>keys()\<close> walk the chain from the head, pushing onto the
  result array.
\<close>

partial_function (option) entries_loop ::
  "('k, 'v) store \<Rightarrow> ref option \<Rightarrow> ('k \<times> 'v) list \<Rightarrow> ('k \<times> 'v) list option" where
  "entries_loop h current result =
     (case current of
        None \<Rightarrow> Some result
      | Some c \<Rightarrow>
          (case h c of
             None \<Rightarrow> None
           | Some n \<Rightarrow> entries_loop h (nnext n) (result @ [(nkey n, nvalue n)])))"

declare entries_loop.simps [code]

definition entries :: "('k, 'v) LRUCache \<Rightarrow> ('k \<times> 'v) list option" where
  "entries s = entries_loop (heap s) (head s) []"

partial_function (option) keys_loop ::
  "('k, 'v) store \<Rightarrow> ref option \<Rightarrow> 'k list \<Rightarrow> 'k list option" where
  "keys_loop h current result =
     (case current of
        None \<Rightarrow> Some result
      | Some c \<Rightarrow>
          (case h c of
             None \<Rightarrow> None
           | Some n \<Rightarrow> keys_loop h (nnext n) (result @ [nkey n])))"

declare keys_loop.simps [code]

definition keys :: "('k, 'v) LRUCache \<Rightarrow> 'k list option" where
  "keys s = keys_loop (heap s) (head s) []"

subsection \<open>Sequences of calls\<close>

text \<open>
  The public calls that the properties speak of. \<^verbatim>\<open>has\<close> and \<^verbatim>\<open>peek\<close> return a
  value and assign nothing, so their step hands the cache back as it is.
\<close>

datatype ('k, 'v) call =
  Get 'k | Put 'k 'v | Delete 'k | Clear | ResetStats | Has 'k | Peek 'k

fun step :: "('k, 'v) call \<Rightarrow> ('k, 'v) LRUCache \<Rightarrow> ('k, 'v) LRUCache option" where
  "step (Get k) s = Some (snd (get k s))"
| "step (Put k v) s = Some (put k v s)"
| "step (Delete k) s = Some (snd (delete k s))"
| "step Clear s = clear s"
| "step ResetStats s = Some (resetStats s)"
| "step (Has k) s = Some s"
| "step (Peek k) s = Some s"

fun run :: "('k, 'v) call list \<Rightarrow> ('k, 'v) LRUCache \<Rightarrow> ('k, 'v) LRUCache option" where
  "run [] s = Some s"
| "run (c # cs) s = (case step c s of None \<Rightarrow> None | Some s' \<Rightarrow> run cs s')"

text \<open>Construct a cache with the given capacity, then make the calls.\<close>

definition session :: "number \<Rightarrow> ('k, 'v) call list \<Rightarrow> ('k, 'v) LRUCache option" where
  "session c cs = (case new_LRUCache c of Inl e \<Rightarrow> None | Inr s \<Rightarrow> run cs s)"

section \<open>The standalone doubly linked list\<close>

text \<open>
  \<^verbatim>\<open>class DoublyLinkedList\<close> with its own node class, over a store of its own. The
  constructor's \<^verbatim>\<open>equalityFn\<close> is used by \<^verbatim>\<open>contains\<close> only and is left out.
\<close>

record 'a DoublyLinkedListNode =
  dvalue :: 'a
  dprev :: "ref option"
  dnext :: "ref option"

type_synonym 'a dstore = "ref \<rightharpoonup> 'a DoublyLinkedListNode"

definition dget_prev :: "'a dstore \<Rightarrow> ref \<Rightarrow> ref option" where
  "dget_prev h r = (case h r of None \<Rightarrow> None | Some n \<Rightarrow> dprev n)"

definition dget_next :: "'a dstore \<Rightarrow> ref \<Rightarrow> ref option" where
  "dget_next h r = (case h r of None \<Rightarrow> None | Some n \<Rightarrow> dnext n)"

definition dget_value :: "'a dstore \<Rightarrow> ref \<Rightarrow> 'a option" where
  "dget_value h r = map_option dvalue (h r)"

definition dset_prev :: "'a dstore \<Rightarrow> ref \<Rightarrow> ref option \<Rightarrow> 'a dstore" where
  "dset_prev h r p = (case h r of None \<Rightarrow> h | Some n \<Rightarrow> h(r \<mapsto> n\<lparr>dprev := p\<rparr>))"

definition dset_next :: "'a dstore \<Rightarrow> ref \<Rightarrow> ref option \<Rightarrow> 'a dstore" where
  "dset_next h r p = (case h r of None \<Rightarrow> h | Some n \<Rightarrow> h(r \<mapsto> n\<lparr>dnext := p\<rparr>))"

record 'a DoublyLinkedList =
  dhead :: "ref option"
  dtail :: "ref option"
  dsize :: int
  dheap :: "'a dstore"
  dfresh :: ref

definition new_DoublyLinkedList :: "'a DoublyLinkedList" where
  "new_DoublyLinkedList = \<lparr>dhead = None, dtail = None, dsize = 0, dheap = Map.empty, dfresh = 0\<rparr>"

definition addFirst :: "'a \<Rightarrow> 'a DoublyLinkedList \<Rightarrow> 'a DoublyLinkedList" where
  "addFirst v l =
     (let newNode = dfresh l;
          l1 = l\<lparr>dheap := (dheap l)(newNode \<mapsto> \<lparr>dvalue = v, dprev = None, dnext = None\<rparr>),
                 dfresh := newNode + 1\<rparr>;
          l2 = (case dhead l1 of
                  None \<Rightarrow> l1\<lparr>dtail := Some newNode, dhead := Some newNode\<rparr>
                | Some old \<Rightarrow>
                    (let h1 = dset_next (dheap l1) newNode (Some old);
                         h2 = dset_prev h1 old (Some newNode)
                     in l1\<lparr>dheap := h2, dhead := Some newNode\<rparr>))
      in l2\<lparr>dsize := dsize l2 + 1\<rparr>)"

definition addLast :: "'a \<Rightarrow> 'a DoublyLinkedList \<Rightarrow> 'a DoublyLinkedList" where
  "addLast v l =
     (let newNode = dfresh l;
          l1 = l\<lparr>dheap := (dheap l)(newNode \<mapsto> \<lparr>dvalue = v, dprev = None, dnext = None\<rparr>),
                 dfresh := newNode + 1\<rparr>;
          l2 = (case dtail l1 of
                  None \<Rightarrow> l1\<lparr>dtail := Some newNode, dhead := Some newNode\<rparr>
                | Some old \<Rightarrow>
                    (let h1 = dset_prev (dheap l1) newNode (Some old);
                         h2 = dset_next h1 old (Some newNode)
                     in l1\<lparr>dheap := h2, dtail := Some newNode\<rparr>))
      in l2\<lparr>dsize := dsize l2 + 1\<rparr>)"

definition removeFirst :: "'a DoublyLinkedList \<Rightarrow> 'a option \<times> 'a DoublyLinkedList" where
  "removeFirst l =
     (case dhead l of
        None \<Rightarrow> (None, l)
      | Some old \<Rightarrow>
          (let v = dget_value (dheap l) old;
               l1 = l\<lparr>dhead := dget_next (dheap l) old\<rparr>;
               l2 = (case dhead l1 of
                       None \<Rightarrow> l1\<lparr>dtail := None\<rparr>
                     | Some h \<Rightarrow> l1\<lparr>dheap := dset_prev (dheap l1) h None\<rparr>)
           in (v, l2\<lparr>dsize := dsize l2 - 1\<rparr>)))"

definition removeLast :: "'a DoublyLinkedList \<Rightarrow> 'a option \<times> 'a DoublyLinkedList" where
  "removeLast l =
     (case dtail l of
        None \<Rightarrow> (None, l)
      | Some old \<Rightarrow>
          (let v = dget_value (dheap l) old;
               l1 = l\<lparr>dtail := dget_prev (dheap l) old\<rparr>;
               l2 = (case dtail l1 of
                       None \<Rightarrow> l1\<lparr>dhead := None\<rparr>
                     | Some t \<Rightarrow> l1\<lparr>dheap := dset_next (dheap l1) t None\<rparr>)
           in (v, l2\<lparr>dsize := dsize l2 - 1\<rparr>)))"

text \<open>
  The two \<^verbatim>\<open>for\<close> loops of \<^verbatim>\<open>getNodeAt\<close>, \<^verbatim>\<open>for (let i = 0; i < index; i++)\<close>
  from the head and \<^verbatim>\<open>for (let i = this._size - 1; i > index; i--)\<close> from the tail,
  each with the body \<^verbatim>\<open>current = current!.next\<close> (or \<^verbatim>\<open>prev\<close>), which is a run-time
  \<^verbatim>\<open>TypeError\<close> on a null \<^verbatim>\<open>current\<close>. The index is a \<^verbatim>\<open>number\<close>; the loops are
  partial functions, \<open>None\<close> standing for a loop that never ends.
\<close>

partial_function (option) getNodeAt_from_head ::
  "(ref \<Rightarrow> ref option) \<Rightarrow> number \<Rightarrow> int \<Rightarrow> ref option \<Rightarrow> (error + ref option) option" where
  "getNodeAt_from_head f index i current =
     (if above index (of_int i)
      then (case current of
              None \<Rightarrow> Some (Inl TypeError)
            | Some c \<Rightarrow> getNodeAt_from_head f index (i + 1) (f c))
      else Some (Inr current))"

declare getNodeAt_from_head.simps [code]

partial_function (option) getNodeAt_from_tail ::
  "(ref \<Rightarrow> ref option) \<Rightarrow> number \<Rightarrow> int \<Rightarrow> ref option \<Rightarrow> (error + ref option) option" where
  "getNodeAt_from_tail f index i current =
     (if below index (of_int i)
      then (case current of
              None \<Rightarrow> Some (Inl TypeError)
            | Some c \<Rightarrow> getNodeAt_from_tail f index (i - 1) (f c))
      else Some (Inr current))"

declare getNodeAt_from_tail.simps [code]

definition getNodeAt :: "number \<Rightarrow> 'a DoublyLinkedList \<Rightarrow> (error + ref option) option" where
  "getNodeAt index l =
     (if below index 0 \<or> at_least index (of_int (dsize l)) then Some (Inr None)
      else if below index (of_int (dsize l) / 2)
      then getNodeAt_from_head (dget_next (dheap l)) index 0 (dhead l)
      else getNodeAt_from_tail (dget_prev (dheap l)) index (dsize l - 1) (dtail l))"

definition removeAt ::
  "number \<Rightarrow> 'a DoublyLinkedList \<Rightarrow> (error + ('a option \<times> 'a DoublyLinkedList)) option" where
  "removeAt index l =
     (if below index 0 \<or> at_least index (of_int (dsize l)) then Some (Inr (None, l))
      else if index = Finite 0 then Some (Inr (removeFirst l))
      else if index = Finite (of_int (dsize l - 1)) then Some (Inr (removeLast l))
      else
        (case getNodeAt index l of
           None \<Rightarrow> None
         | Some (Inl e) \<Rightarrow> Some (Inl e)
         | Some (Inr None) \<Rightarrow> Some (Inr (None, l))
         | Some (Inr (Some node)) \<Rightarrow>
             (let v = dget_value (dheap l) node;
                  h1 = (case dget_prev (dheap l) node of
                          None \<Rightarrow> dheap l
                        | Some p \<Rightarrow> dset_next (dheap l) p (dget_next (dheap l) node));
                  h2 = (case dget_next h1 node of
                          None \<Rightarrow> h1
                        | Some n \<Rightarrow> dset_prev h1 n (dget_prev h1 node))
              in Some (Inr (v, l\<lparr>dheap := h2, dsize := dsize l - 1\<rparr>)))))"

section \<open>Vocabulary of the properties\<close>

subsection \<open>Chains in the store\<close>

text \<open>
  \<open>path f x rs y\<close>: starting at \<open>x\<close> and following the link \<open>f\<close>, one visits exactly the
  nodes \<open>rs\<close>, in this order, and then arrives at \<open>y\<close>.
\<close>

primrec path :: "(ref \<Rightarrow> ref option) \<Rightarrow> ref option \<Rightarrow> ref list \<Rightarrow> ref option \<Rightarrow> bool" where
  "path f x [] y = (x = y)"
| "path f x (a # as) y = (x = Some a \<and> path f (f a) as y)"

text \<open>
  The nodes \<open>rs\<close> are the head-to-tail chain of the cache: \<^verbatim>\<open>next\<close> links lead from
  the head through \<open>rs\<close> to null, \<^verbatim>\<open>prev\<close> links lead from the tail through \<open>rs\<close>
  backwards to null, and no node occurs twice.
\<close>

definition chain :: "('k, 'v) LRUCache \<Rightarrow> ref list \<Rightarrow> bool" where
  "chain s rs =
     (path (get_next (heap s)) (head s) rs None \<and>
      path (get_prev (heap s)) (tail s) (rev rs) None \<and>
      distinct rs \<and> set rs \<subseteq> dom (heap s))"

text \<open>Taking \<open>n\<close> steps along a link, as a loop of \<^verbatim>\<open>getNodeAt\<close> with \<open>n\<close> rounds does.\<close>

fun follow :: "(ref \<Rightarrow> ref option) \<Rightarrow> nat \<Rightarrow> ref option \<Rightarrow> error + ref option" where
  "follow f 0 current = Inr current"
| "follow f (Suc n) current =
     (case current of None \<Rightarrow> Inl TypeError | Some c \<Rightarrow> follow f n (f c))"

text \<open>The same for the standalone list, whose \<^verbatim>\<open>_size\<close> counts the nodes.\<close>

definition dchain :: "'a DoublyLinkedList \<Rightarrow> ref list \<Rightarrow> bool" where
  "dchain l ds =
     (path (dget_next (dheap l)) (dhead l) ds None \<and>
      path (dget_prev (dheap l)) (dtail l) (rev ds) None \<and>
      distinct ds \<and> set ds \<subseteq> dom (dheap l) \<and> dsize l = int (length ds))"

subsection \<open>Counting calls\<close>

text \<open>The calls that only read: \<^verbatim>\<open>has\<close> and \<^verbatim>\<open>peek\<close>.\<close>

fun is_read :: "('k, 'v) call \<Rightarrow> bool" where
  "is_read (Has k) = True"
| "is_read (Peek k) = True"
| "is_read c = False"

text \<open>
  The number of \<^verbatim>\<open>get\<close> calls since the last \<^verbatim>\<open>clear\<close>, and since the last
  \<^verbatim>\<open>clear\<close> or \<^verbatim>\<open>resetStats\<close>; \<open>n\<close> is the count so far.
\<close>

fun gets_since_clear :: "int \<Rightarrow> ('k, 'v) call list \<Rightarrow> int" where
  "gets_since_clear n [] = n"
| "gets_since_clear n (Get k # cs) = gets_since_clear (n + 1) cs"
| "gets_since_clear n (Clear # cs) = gets_since_clear 0 cs"
| "gets_since_clear n (c # cs) = gets_since_clear n cs"

fun gets_since_reset :: "int \<Rightarrow> ('k, 'v) call list \<Rightarrow> int" where
  "gets_since_reset n [] = n"
| "gets_since_reset n (Get k # cs) = gets_since_reset (n + 1) cs"
| "gets_since_reset n (Clear # cs) = gets_since_reset 0 cs"
| "gets_since_reset n (ResetStats # cs) = gets_since_reset 0 cs"
| "gets_since_reset n (c # cs) = gets_since_reset n cs"

text \<open>The keys handed to \<^verbatim>\<open>put\<close>, in the order of the calls.\<close>

fun put_keys :: "('k, 'v) call list \<Rightarrow> 'k list" where
  "put_keys [] = []"
| "put_keys (Put k v # cs) = k # put_keys cs"
| "put_keys (c # cs) = put_keys cs"

text \<open>
  A tally kept beside a run: the puts of a key that was not present, the deletes that
  removed a key, and the evictions (the increments of the eviction counter by a put);
  \<^verbatim>\<open>clear\<close> starts the tally again.
\<close>

record tally =
  inserted :: int
  deleted :: int
  evicted :: int

fun tally_step :: "('k, 'v) call \<Rightarrow> ('k, 'v) LRUCache \<Rightarrow> tally \<Rightarrow> tally" where
  "tally_step (Put k v) s t =
     t\<lparr>inserted := inserted t + (if has k s then 0 else 1),
       evicted := evicted t + (evictions (put k v s) - evictions s)\<rparr>"
| "tally_step (Delete k) s t = t\<lparr>deleted := deleted t + (if fst (delete k s) then 1 else 0)\<rparr>"
| "tally_step Clear s t = \<lparr>inserted = 0, deleted = 0, evicted = 0\<rparr>"
| "tally_step c s t = t"

fun tally_run :: "('k, 'v) call list \<Rightarrow> ('k, 'v) LRUCache \<Rightarrow> tally \<Rightarrow> tally option" where
  "tally_run [] s t = Some t"
| "tally_run (c # cs) s t =
     (case step c s of None \<Rightarrow> None | Some s' \<Rightarrow> tally_run cs s' (tally_step c s t))"

definition session_tally :: "number \<Rightarrow> ('k, 'v) call list \<Rightarrow> tally option" where
  "session_tally c cs =
     (case (new_LRUCache c :: error + ('k, 'v) LRUCache) of
        Inl e \<Rightarrow> None
      | Inr s \<Rightarrow> tally_run cs s \<lparr>inserted = 0, deleted = 0, evicted = 0\<rparr>)"

text \<open>
  The log of touches kept beside a run, oldest first: a \<^verbatim>\<open>put\<close> touches its key, a
  \<^verbatim>\<open>get\<close> touches its key when it finds it.
\<close>

fun touched :: "('k, 'v) call \<Rightarrow> ('k, 'v) LRUCache \<Rightarrow> 'k list" where
  "touched (Put k v) s = [k]"
| "touched (Get k) s = (if has k s then [k] else [])"
| "touched c s = []"

fun touches_run :: "('k, 'v) call list \<Rightarrow> ('k, 'v) LRUCache \<Rightarrow> 'k list \<Rightarrow> 'k list option" where
  "touches_run [] s ks = Some ks"
| "touches_run (c # cs) s ks =
     (case step c s of None \<Rightarrow> None | Some s' \<Rightarrow> touches_run cs s' (ks @ touched c s))"

definition session_touches :: "number \<Rightarrow> ('k, 'v) call list \<Rightarrow> 'k list option" where
  "session_touches c cs =
     (case (new_LRUCache c :: error + ('k, 'v) LRUCache) of
        Inl e \<Rightarrow> None
      | Inr s \<Rightarrow> touches_run cs s [])"

subsection \<open>The entries behind a cache\<close>

text \<open>The first node of a list of nodes, or \<open>y\<close> when there is none.\<close>

definition first_or :: "ref option \<Rightarrow> ref list \<Rightarrow> ref option" where
  "first_or y as = (case as of [] \<Rightarrow> y | a # _ \<Rightarrow> Some a)"

text \<open>The key and value held by the node at an address.\<close>

definition entry_of :: "('k, 'v) store \<Rightarrow> ref \<Rightarrow> ('k \<times> 'v) option" where
  "entry_of h r = map_option (\<lambda>n. (nkey n, nvalue n)) (h r)"

text \<open>
  The cache \<open>s\<close> represents the entries \<open>es\<close>, most recently used first, by the nodes
  \<open>rs\<close>: the nodes are the chain and hold the entries in this order, the index maps each
  key to the node of the chain that carries it and maps nothing else, the size counter is
  the number of nodes, and every allocated address lies below the allocator's next one.
\<close>

definition rep :: "('k, 'v) LRUCache \<Rightarrow> ref list \<Rightarrow> ('k \<times> 'v) list \<Rightarrow> bool" where
  "rep s rs es =
     (chain s rs \<and> map (entry_of (heap s)) rs = map Some es \<and>
      (\<forall>k r. cache s k = Some r \<longleftrightarrow> r \<in> set rs \<and> get_key (heap s) r = Some k) \<and>
      lru_size s = int (length rs) \<and> (\<forall>r \<in> dom (heap s). r < fresh s))"

text \<open>The entries without the one for key \<open>k\<close>.\<close>

definition without :: "'k \<Rightarrow> ('k \<times> 'v) list \<Rightarrow> ('k \<times> 'v) list" where
  "without k es = filter (\<lambda>e. fst e \<noteq> k) es"

text \<open>
  The list of entries, most recently used first, that a call leaves behind; \<open>c\<close> is the
  capacity.
\<close>

fun entries_after :: "number \<Rightarrow> ('k, 'v) call \<Rightarrow> ('k \<times> 'v) list \<Rightarrow> ('k \<times> 'v) list" where
  "entries_after c (Get k) es =
     (case map_of es k of None \<Rightarrow> es | Some v \<Rightarrow> (k, v) # without k es)"
| "entries_after c (Put k v) es =
     (if k \<in> fst ` set es then (k, v) # without k es
      else if exceeds (int (length es) + 1) c then butlast ((k, v) # es)
      else (k, v) # es)"
| "entries_after c (Delete k) es = without k es"
| "entries_after c Clear es = []"
| "entries_after c ResetStats es = es"
| "entries_after c (Has k) es = es"
| "entries_after c (Peek k) es = es"

text \<open>The cache represents the entries by some chain of nodes.\<close>

definition refines :: "('k, 'v) LRUCache \<Rightarrow> ('k \<times> 'v) list \<Rightarrow> bool" where
  "refines s es = (\<exists>rs. rep s rs es)"

text \<open>The entries after a sequence of calls on a cache of capacity \<open>c\<close>.\<close>

fun entries_run :: "number \<Rightarrow> ('k, 'v) call list \<Rightarrow> ('k \<times> 'v) list \<Rightarrow> ('k \<times> 'v) list" where
  "entries_run c [] es = es"
| "entries_run c (x # cs) es = entries_run c cs (entries_after c x es)"

text \<open>
  The keys of the entries, most recently used first, are the present keys in the order of
  their latest touch, latest first (\<open>remdups\<close> keeps the last occurrence of each key
  of the log).
\<close>

definition ordered_by_touch :: "('k \<times> 'v) list \<Rightarrow> 'k list \<Rightarrow> bool" where
  "ordered_by_touch es ks = (map fst es = rev (remdups (filter (\<lambda>k. k \<in> fst ` set es) ks)))"

section \<open>Store and path lemmas\<close>

lemma get_next_set_next:
  "get_next (set_next h r v) = (if r \<in> dom h then (get_next h)(r := v) else get_next h)"
  by (auto simp: get_next_def set_next_def fun_eq_iff split: option.splits)

lemma get_next_set_prev: "get_next (set_prev h r v) = get_next h"
  by (auto simp: get_next_def set_prev_def fun_eq_iff split: option.splits)

lemma get_next_set_value: "get_next (set_value h r v) = get_next h"
  by (auto simp: get_next_def set_value_def fun_eq_iff split: option.splits)

lemma get_prev_set_prev:
  "get_prev (set_prev h r v) = (if r \<in> dom h then (get_prev h)(r := v) else get_prev h)"
  by (auto simp: get_prev_def set_prev_def fun_eq_iff split: option.splits)

lemma get_prev_set_next: "get_prev (set_next h r v) = get_prev h"
  by (auto simp: get_prev_def set_next_def fun_eq_iff split: option.splits)

lemma get_prev_set_value: "get_prev (set_value h r v) = get_prev h"
  by (auto simp: get_prev_def set_value_def fun_eq_iff split: option.splits)

lemma get_key_set:
  "get_key (set_prev h r p) = get_key h"
  "get_key (set_next h r p) = get_key h"
  "get_key (set_value h r v) = get_key h"
  by (auto simp: get_key_def set_prev_def set_next_def set_value_def fun_eq_iff
      split: option.splits)

lemma get_value_set:
  "get_value (set_prev h r p) = get_value h"
  "get_value (set_next h r p) = get_value h"
  "get_value (set_value h r v) = (if r \<in> dom h then (get_value h)(r \<mapsto> v) else get_value h)"
  by (auto simp: get_value_def set_prev_def set_next_def set_value_def fun_eq_iff
      split: option.splits)

lemma dom_set:
  "dom (set_prev h r p) = dom h"
  "dom (set_next h r p) = dom h"
  "dom (set_value h r v) = dom h"
  by (auto simp: set_prev_def set_next_def set_value_def split: option.splits)

lemma get_alloc:
  "get_next (h(r \<mapsto> n)) = (get_next h)(r := nnext n)"
  "get_prev (h(r \<mapsto> n)) = (get_prev h)(r := nprev n)"
  "get_key (h(r \<mapsto> n)) = (get_key h)(r \<mapsto> nkey n)"
  "get_value (h(r \<mapsto> n)) = (get_value h)(r \<mapsto> nvalue n)"
  by (auto simp: get_next_def get_prev_def get_key_def get_value_def fun_eq_iff)

lemmas store_simps = get_next_set_next get_next_set_prev get_next_set_value
  get_prev_set_prev get_prev_set_next get_prev_set_value get_key_set get_value_set dom_set

lemma first_or_simps [simp]: "first_or y [] = y" "first_or y (a # as) = Some a"
  by (simp_all add: first_or_def)

lemma path_first: "path f x as y \<Longrightarrow> x = first_or y as"
  by (cases as) auto

lemma path_append: "path f x (as @ bs) z = (path f x as (first_or z bs) \<and> path f (first_or z bs) bs z)"
proof (induction as arbitrary: x)
  case Nil
  show ?case using path_first [of f x bs z] by auto
next
  case (Cons a as)
  then show ?case by simp
qed

lemma path_frame: "(\<And>a. a \<in> set as \<Longrightarrow> g a = f a) \<Longrightarrow> path g x as y = path f x as y"
  by (induction as arbitrary: x) auto

lemma path_upd: "p \<notin> set as \<Longrightarrow> path (f(p := v)) x as y = path f x as y"
  by (rule path_frame) auto

text \<open>Unlinking one node of a path that ends in null.\<close>

lemma path_unlink:
  assumes p: "path f x (as @ r # bs) None" and d: "distinct (as @ r # bs)"
  shows "path ((if as = [] then f else f(last as := f r))(r := None))
           (if as = [] then f r else x) (as @ bs) None"
proof (cases as rule: rev_cases)
  case Nil
  with p d show ?thesis by (simp add: path_upd)
next
  case (snoc as' a)
  from p snoc have 1: "path f x as' (Some a)" and 2: "path f (f r) bs None"
    by (simp_all add: path_append)
  from d snoc have n: "a \<notin> set as'" "r \<notin> set as'" "a \<noteq> r" "r \<notin> set bs" "a \<notin> set bs"
    by auto
  show ?thesis using snoc 1 2 n
    by (simp add: path_append path_upd path_first [OF 2, symmetric])
qed

lemma removeNode_frame:
  "cache (removeNode r s) = cache s"
  "lru_size (removeNode r s) = lru_size s"
  "hits (removeNode r s) = hits s"
  "misses (removeNode r s) = misses s"
  "evictions (removeNode r s) = evictions s"
  "capacity (removeNode r s) = capacity s"
  "fresh (removeNode r s) = fresh s"
  "dom (heap (removeNode r s)) = dom (heap s)"
  "get_key (heap (removeNode r s)) = get_key (heap s)"
  "get_value (heap (removeNode r s)) = get_value (heap s)"
  by (simp_all add: removeNode_def Let_def store_simps split: option.splits)

lemma addToHead_frame:
  "cache (addToHead r s) = cache s"
  "lru_size (addToHead r s) = lru_size s"
  "hits (addToHead r s) = hits s"
  "misses (addToHead r s) = misses s"
  "evictions (addToHead r s) = evictions s"
  "capacity (addToHead r s) = capacity s"
  "fresh (addToHead r s) = fresh s"
  "dom (heap (addToHead r s)) = dom (heap s)"
  "get_key (heap (addToHead r s)) = get_key (heap s)"
  "get_value (heap (addToHead r s)) = get_value (heap s)"
  by (simp_all add: addToHead_def Let_def store_simps split: option.splits)

lemma chain_links:
  assumes "chain s (as @ r # bs)"
  shows "get_next (heap s) r = first_or None bs"
    and "get_prev (heap s) r = first_or None (rev as)"
proof -
  from assms have "path (get_next (heap s)) (get_next (heap s) r) bs None"
    by (simp add: chain_def path_append)
  then show "get_next (heap s) r = first_or None bs" by (rule path_first)
  from assms have "path (get_prev (heap s)) (get_prev (heap s) r) (rev as) None"
    by (simp add: chain_def path_append)
  then show "get_prev (heap s) r = first_or None (rev as)" by (rule path_first)
qed

lemma removeNode_effect:
  assumes c: "chain s (as @ r # bs)"
  shows "get_next (heap (removeNode r s)) =
           ((if as = [] then get_next (heap s)
             else (get_next (heap s))(last as := get_next (heap s) r))(r := None))"
    and "get_prev (heap (removeNode r s)) =
           ((if bs = [] then get_prev (heap s)
             else (get_prev (heap s))(hd bs := get_prev (heap s) r))(r := None))"
    and "head (removeNode r s) = (if as = [] then get_next (heap s) r else head s)"
    and "tail (removeNode r s) = (if bs = [] then get_prev (heap s) r else tail s)"
proof -
  note l = chain_links [OF c]
  from c have d: "set as \<subseteq> dom (heap s)" "set bs \<subseteq> dom (heap s)" "r \<in> dom (heap s)"
    "r \<notin> set as" "r \<notin> set bs"
    by (auto simp: chain_def)
  have la: "as \<noteq> [] \<Longrightarrow> last as \<in> dom (heap s) \<and> last as \<noteq> r"
    using d last_in_set [of as] by blast
  have hb: "bs \<noteq> [] \<Longrightarrow> hd bs \<in> dom (heap s) \<and> hd bs \<noteq> r"
    using d hd_in_set [of bs] by blast
  have fa: "first_or None (rev as) = (if as = [] then None else Some (last as))"
    by (cases as rule: rev_cases) auto
  have fb: "first_or None bs = (if bs = [] then None else Some (hd bs))"
    by (cases bs) auto
  show "get_next (heap (removeNode r s)) =
           ((if as = [] then get_next (heap s)
             else (get_next (heap s))(last as := get_next (heap s) r))(r := None))"
    using l d la hb by (auto simp: removeNode_def Let_def store_simps fa fb)
  show "get_prev (heap (removeNode r s)) =
           ((if bs = [] then get_prev (heap s)
             else (get_prev (heap s))(hd bs := get_prev (heap s) r))(r := None))"
    using l d la hb by (auto simp: removeNode_def Let_def store_simps fa fb)
  show "head (removeNode r s) = (if as = [] then get_next (heap s) r else head s)"
    using l d la hb by (auto simp: removeNode_def Let_def store_simps fa fb)
  show "tail (removeNode r s) = (if bs = [] then get_prev (heap s) r else tail s)"
    using l d la hb by (auto simp: removeNode_def Let_def store_simps fa fb)
qed

lemma removeNode_chain_split:
  assumes c: "chain s (as @ r # bs)"
  shows "chain (removeNode r s) (as @ bs)"
proof -
  from c have pn: "path (get_next (heap s)) (head s) (as @ r # bs) None"
    and pp: "path (get_prev (heap s)) (tail s) (rev bs @ r # rev as) None"
    and d: "distinct (as @ r # bs)" and sub: "set (as @ r # bs) \<subseteq> dom (heap s)"
    by (simp_all add: chain_def)
  from d have d': "distinct (rev bs @ r # rev as)" by auto
  have 1: "path (get_next (heap (removeNode r s))) (head (removeNode r s)) (as @ bs) None"
    using path_unlink [OF pn d] by (simp add: removeNode_effect [OF c])
  have 2: "path (get_prev (heap (removeNode r s))) (tail (removeNode r s)) (rev (as @ bs)) None"
    using path_unlink [OF pp d']
    by (cases "bs = []") (simp_all add: removeNode_effect [OF c] last_rev)
  show ?thesis using 1 2 d sub by (auto simp: chain_def removeNode_frame)
qed

lemma removeNode_chain:
  assumes c: "chain s rs" and r: "r \<in> set rs"
  shows "chain (removeNode r s) (remove1 r rs)"
proof -
  from r obtain as bs where rs: "rs = as @ r # bs" and n: "r \<notin> set as"
    by (auto dest: split_list_first)
  have "remove1 r rs = as @ bs" using rs n by (simp add: remove1_append)
  then show ?thesis using removeNode_chain_split c rs by metis
qed

lemma removeNode_cleared:
  assumes c: "chain s rs" and r: "r \<in> set rs"
  shows "get_next (heap (removeNode r s)) r = None" "get_prev (heap (removeNode r s)) r = None"
proof -
  from r obtain as bs where rs: "rs = as @ r # bs"
    by (auto dest: split_list)
  from c rs have c': "chain s (as @ r # bs)" by simp
  show "get_next (heap (removeNode r s)) r = None" by (simp add: removeNode_effect [OF c'])
  show "get_prev (heap (removeNode r s)) r = None" by (simp add: removeNode_effect [OF c'])
qed

lemma addToHead_chain:
  assumes c: "chain s rs" and r: "r \<notin> set rs" "r \<in> dom (heap s)"
  shows "chain (addToHead r s) (r # rs)"
proof (cases rs)
  case Nil
  with c r show ?thesis
    by (auto simp: chain_def addToHead_def Let_def store_simps)
next
  case (Cons a rs')
  from c Cons have hd: "head s = Some a" and a: "a \<in> dom (heap s)" "a \<noteq> r"
    and pn: "path (get_next (heap s)) (head s) rs None"
    and pp: "path (get_prev (heap s)) (tail s) (rev rs') (Some a)"
    and pa: "get_prev (heap s) a = None"
    and d: "distinct rs" "set rs \<subseteq> dom (heap s)" "a \<notin> set rs'"
    using r by (auto simp: chain_def path_append)
  from pp have tl: "tail s \<noteq> None" by (cases "rev rs'") auto
  have gn: "get_next (heap (addToHead r s)) = (get_next (heap s))(r := head s)"
    using r a hd by (auto simp: addToHead_def Let_def store_simps)
  have gp: "get_prev (heap (addToHead r s)) = (get_prev (heap s))(r := None, a := Some r)"
    using r a hd by (auto simp: addToHead_def Let_def store_simps)
  have h': "head (addToHead r s) = Some r" "tail (addToHead r s) = tail s"
    using tl by (auto simp: addToHead_def Let_def)
  have 1: "path (get_next (heap (addToHead r s))) (head (addToHead r s)) (r # rs) None"
    using pn r by (simp add: gn h' path_upd)
  have 2: "path (get_prev (heap (addToHead r s))) (tail (addToHead r s)) (rev (r # rs)) None"
    using pp r d a Cons by (simp add: gp h' path_append path_upd)
  show ?thesis using 1 2 d r by (auto simp: chain_def addToHead_frame)
qed

lemma entry_of_alt:
  "entry_of h r =
     (case get_key h r of None \<Rightarrow> None
      | Some k \<Rightarrow> (case get_value h r of None \<Rightarrow> None | Some v \<Rightarrow> Some (k, v)))"
  by (simp add: entry_of_def get_key_def get_value_def split: option.splits)

lemma entry_of_cong: "get_key h' = get_key h \<Longrightarrow> get_value h' = get_value h \<Longrightarrow> entry_of h' = entry_of h"
  by (rule ext) (simp add: entry_of_alt split: option.splits)

lemma get_key_entry: "get_key h r = map_option fst (entry_of h r)"
  by (simp add: entry_of_def get_key_def option.map_comp comp_def)

lemma get_value_entry: "get_value h r = map_option snd (entry_of h r)"
  by (simp add: entry_of_def get_value_def option.map_comp comp_def)

lemma rep_length: "rep s rs es \<Longrightarrow> length es = length rs"
  unfolding rep_def by (metis length_map)

lemma rep_nth:
  assumes "rep s rs es" "i < length rs"
  shows "entry_of (heap s) (rs ! i) = Some (es ! i)"
proof -
  from assms have "map (entry_of (heap s)) rs ! i = map Some es ! i" by (simp add: rep_def)
  then show ?thesis using assms rep_length [OF assms(1)] by simp
qed

lemma rep_key_inj:
  assumes r: "rep s rs es" and a: "a \<in> set rs" "b \<in> set rs"
    and k: "get_key (heap s) a = get_key (heap s) b"
  shows "a = b"
proof -
  from r a have "a \<in> dom (heap s)" by (auto simp: rep_def chain_def)
  then obtain ka where ka: "get_key (heap s) a = Some ka" by (auto simp: get_key_def)
  with r a k have "cache s ka = Some a" "cache s ka = Some b" by (auto simp: rep_def)
  then show ?thesis by simp
qed

lemma rep_distinct_keys:
  assumes r: "rep s rs es"
  shows "distinct (map fst es)"
proof -
  have d: "distinct rs" using r by (simp add: rep_def chain_def)
  have "inj_on (get_key (heap s)) (set rs)"
    using rep_key_inj [OF r] by (auto simp: inj_on_def)
  then have dk: "distinct (map (get_key (heap s)) rs)" using d by (simp add: distinct_map)
  have "map (get_key (heap s)) rs = map (map_option fst) (map (entry_of (heap s)) rs)"
    by (simp add: get_key_entry)
  also have "\<dots> = map Some (map fst es)" using r by (simp add: rep_def)
  finally have "distinct (map Some (map fst es))" using dk by simp
  then show ?thesis using distinct_map [of Some "map fst es"] by blast
qed

lemma rep_has:
  assumes r: "rep s rs es"
  shows "has k s \<longleftrightarrow> k \<in> fst ` set es"
proof -
  have "set (map (get_key (heap s)) rs) = set (map Some (map fst es))"
  proof -
    have "map (get_key (heap s)) rs = map (map_option fst) (map (entry_of (heap s)) rs)"
      by (simp add: get_key_entry)
    also have "\<dots> = map Some (map fst es)" using r by (simp add: rep_def)
    finally show ?thesis by simp
  qed
  then have e: "get_key (heap s) ` set rs = Some ` fst ` set es" by (simp add: image_image)
  have "has k s \<longleftrightarrow> (\<exists>r \<in> set rs. get_key (heap s) r = Some k)"
    using r by (auto simp: has_def rep_def)
  also have "\<dots> \<longleftrightarrow> Some k \<in> get_key (heap s) ` set rs" by force
  also have "\<dots> \<longleftrightarrow> k \<in> fst ` set es" unfolding e by auto
  finally show ?thesis .
qed

lemma rep_lookup:
  assumes r: "rep s rs es" and c: "cache s k = Some x"
  shows "\<exists>v. entry_of (heap s) x = Some (k, v) \<and> (k, v) \<in> set es \<and> map_of es k = Some v \<and> x \<in> set rs"
proof -
  from r c have x: "x \<in> set rs" and kx: "get_key (heap s) x = Some k" by (auto simp: rep_def)
  from x obtain i where i: "i < length rs" "rs ! i = x" by (auto simp: in_set_conv_nth)
  have e: "entry_of (heap s) x = Some (es ! i)" using rep_nth [OF r i(1)] i by simp
  with kx have f: "fst (es ! i) = k" by (simp add: get_key_entry)
  have m: "es ! i \<in> set es" using i rep_length [OF r] by simp
  obtain v where v: "es ! i = (k, v)" using f by (cases "es ! i") auto
  have "map_of es k = Some v" using rep_distinct_keys [OF r] m v by simp
  then show ?thesis using e v m x by auto
qed

lemma rep_peek:
  assumes r: "rep s rs es"
  shows "peek k s = map_of es k"
proof (cases "cache s k")
  case None
  then have "\<not> has k s" by (simp add: has_def)
  then have "k \<notin> fst ` set es" using rep_has [OF r] by simp
  then have "map_of es k = None" by (simp add: map_of_eq_None_iff)
  then show ?thesis using None by (simp add: peek_def)
next
  case (Some x)
  from rep_lookup [OF r Some] show ?thesis using Some
    by (auto simp: peek_def get_value_entry)
qed

lemma rep_head:
  assumes r: "rep s rs es"
  shows "getMostRecent s = (case es of [] \<Rightarrow> None | e # _ \<Rightarrow> Some e)"
proof (cases rs)
  case Nil
  then have "es = []" using rep_length [OF r] by simp
  moreover have "head s = None" using r Nil by (simp add: rep_def chain_def)
  ultimately show ?thesis by (simp add: getMostRecent_def)
next
  case (Cons a rs')
  then obtain e es' where es: "es = e # es'" using rep_length [OF r] by (cases es) auto
  have "head s = Some a" using r Cons by (simp add: rep_def chain_def)
  moreover have "entry_of (heap s) a = Some e" using r Cons es by (simp add: rep_def)
  ultimately show ?thesis using es by (simp add: getMostRecent_def entry_of_def)
qed

lemma rep_tail:
  assumes r: "rep s rs es"
  shows "getLeastRecent s = (if es = [] then None else Some (last es))"
proof (cases rs rule: rev_cases)
  case Nil
  then have "es = []" using rep_length [OF r] by simp
  moreover have "tail s = None" using r Nil by (simp add: rep_def chain_def)
  ultimately show ?thesis by (simp add: getLeastRecent_def)
next
  case (snoc rs' a)
  then have ne: "es \<noteq> []" using rep_length [OF r] by auto
  have "tail s = Some a" using r snoc by (simp add: rep_def chain_def)
  moreover have "entry_of (heap s) a = Some (last es)"
    using rep_nth [OF r, of "length rs'"] snoc ne rep_length [OF r]
    by (simp add: last_conv_nth)
  ultimately show ?thesis using ne by (simp add: getLeastRecent_def entry_of_def)
qed

lemma entries_loop_path:
  assumes "path (get_next h) x rs None" "map (entry_of h) rs = map Some es"
  shows "entries_loop h x acc = Some (acc @ es)"
  using assms
proof (induction rs arbitrary: x es acc)
  case Nil
  then show ?case by (simp add: entries_loop.simps)
next
  case (Cons a rs)
  then obtain e es' where es: "es = e # es'" by (cases es) auto
  from Cons.prems es obtain n where n: "h a = Some n" "e = (nkey n, nvalue n)"
    by (auto simp: entry_of_def)
  have "get_next h a = nnext n" using n by (simp add: get_next_def)
  then have "path (get_next h) (nnext n) rs None" using Cons.prems by simp
  from Cons.IH [OF this, of es'] Cons.prems es
  have "entries_loop h (nnext n) (acc @ [e]) = Some ((acc @ [e]) @ es')" by simp
  then show ?case using Cons.prems n es by (subst entries_loop.simps) simp
qed

lemma keys_loop_path:
  assumes "path (get_next h) x rs None" "map (entry_of h) rs = map Some es"
  shows "keys_loop h x acc = Some (acc @ map fst es)"
  using assms
proof (induction rs arbitrary: x es acc)
  case Nil
  then show ?case by (simp add: keys_loop.simps)
next
  case (Cons a rs)
  then obtain e es' where es: "es = e # es'" by (cases es) auto
  from Cons.prems es obtain n where n: "h a = Some n" "e = (nkey n, nvalue n)"
    by (auto simp: entry_of_def)
  have "get_next h a = nnext n" using n by (simp add: get_next_def)
  then have "path (get_next h) (nnext n) rs None" using Cons.prems by simp
  from Cons.IH [OF this, of es'] Cons.prems es
  have "keys_loop h (nnext n) (acc @ [fst e]) = Some ((acc @ [fst e]) @ map fst es')" by simp
  then show ?case using Cons.prems n es by (subst keys_loop.simps) simp
qed

lemma rep_entries: "rep s rs es \<Longrightarrow> entries s = Some es"
  using entries_loop_path [of "heap s" "head s" rs es "[]"]
  by (simp add: rep_def chain_def entries_def)

lemma rep_keys: "rep s rs es \<Longrightarrow> keys s = Some (map fst es)"
  using keys_loop_path [of "heap s" "head s" rs es "[]"]
  by (simp add: rep_def chain_def keys_def)

lemma clear_loop_path:
  assumes "path (get_next h) x rs None" "distinct rs"
  shows "\<exists>h'. clear_loop h x = Some h' \<and> dom h' = dom h"
  using assms
proof (induction rs arbitrary: x h)
  case Nil
  then show ?case by (simp add: clear_loop.simps)
next
  case (Cons a rs)
  let ?h = "set_next (set_prev h a None) a None"
  have "path (get_next ?h) (get_next h a) rs None"
    using Cons.prems by (auto simp: store_simps path_upd)
  from Cons.IH [OF this] Cons.prems obtain h' where "clear_loop ?h (get_next h a) = Some h'"
    "dom h' = dom h" by (auto simp: store_simps)
  then show ?case using Cons.prems by (subst clear_loop.simps) (simp add: Let_def)
qed

lemma rep_counters [simp]:
  "rep (s\<lparr>hits := x\<rparr>) rs es = rep s rs es"
  "rep (s\<lparr>misses := x\<rparr>) rs es = rep s rs es"
  "rep (s\<lparr>evictions := x\<rparr>) rs es = rep s rs es"
  by (simp_all add: rep_def chain_def)

lemma map_filter_entries:
  assumes "map f rs = map Some es"
    and "\<And>x e. x \<in> set rs \<Longrightarrow> f x = Some e \<Longrightarrow> (x \<noteq> r \<longleftrightarrow> fst e \<noteq> k)"
  shows "map f (filter (\<lambda>x. x \<noteq> r) rs) = map Some (without k es)"
  using assms
proof (induction rs arbitrary: es)
  case Nil
  then show ?case by (simp add: without_def)
next
  case (Cons a rs)
  then obtain e es' where es: "es = e # es'" by (cases es) auto
  with Cons.prems have fa: "f a = Some e" and m: "map f rs = map Some es'" by auto
  have ih: "map f (filter (\<lambda>x. x \<noteq> r) rs) = map Some (without k es')"
    using Cons.IH [OF m] Cons.prems(2) by auto
  have "a \<noteq> r \<longleftrightarrow> fst e \<noteq> k" using Cons.prems(2) [of a e] fa by simp
  then show ?case using ih fa es by (auto simp: without_def)
qed

lemma rep_ref_key:
  assumes r: "rep s rs es" and c: "cache s k = Some x"
    and y: "y \<in> set rs" "entry_of (heap s) y = Some e"
  shows "y \<noteq> x \<longleftrightarrow> fst e \<noteq> k"
proof -
  from r c have x: "x \<in> set rs" "get_key (heap s) x = Some k" by (auto simp: rep_def)
  have ky: "get_key (heap s) y = Some (fst e)" using y by (simp add: get_key_entry)
  show ?thesis
  proof
    assume "y \<noteq> x"
    then show "fst e \<noteq> k" using rep_key_inj [OF r y(1) x(1)] ky x(2) by auto
  next
    assume "fst e \<noteq> k"
    then show "y \<noteq> x" using ky x(2) by auto
  qed
qed

lemma rep_remove1:
  assumes r: "rep s rs es" and c: "cache s k = Some x"
  shows "map (entry_of (heap s)) (remove1 x rs) = map Some (without k es)"
proof -
  have d: "distinct rs" using r by (simp add: rep_def chain_def)
  have "remove1 x rs = filter (\<lambda>y. y \<noteq> x) rs"
    using d by (simp add: distinct_remove1_removeAll removeAll_filter_not_eq) metis
  moreover have "map (entry_of (heap s)) (filter (\<lambda>y. y \<noteq> x) rs) = map Some (without k es)"
    using r rep_ref_key [OF r c] by (intro map_filter_entries) (auto simp: rep_def)
  ultimately show ?thesis by simp
qed

lemma Suc_length_remove1: "x \<in> set rs \<Longrightarrow> Suc (length (remove1 x rs)) = length rs"
  using length_pos_if_in_set [of x rs] by (simp add: length_remove1)

lemma without_absent: "k \<notin> fst ` set es \<Longrightarrow> without k es = es"
  by (induction es) (auto simp: without_def)

lemma without_keys: "fst ` set (without k es) = fst ` set es - {k}"
  by (auto simp: without_def)

lemma entry_of_removeNode [simp]: "entry_of (heap (removeNode r s)) = entry_of (heap s)"
  by (rule entry_of_cong) (simp_all add: removeNode_frame)

lemma entry_of_addToHead [simp]: "entry_of (heap (addToHead r s)) = entry_of (heap s)"
  by (rule entry_of_cong) (simp_all add: addToHead_frame)

text \<open>Removing an indexed node: the common part of \<open>delete\<close> and \<open>evictTail\<close>.\<close>

lemma drop_rep:
  assumes r: "rep s rs es" and c: "cache s k = Some x"
  shows "rep ((removeNode x s)\<lparr>cache := (cache s)(k := None), lru_size := lru_size s - 1\<rparr>)
           (remove1 x rs) (without k es)"
proof -
  let ?s = "(removeNode x s)\<lparr>cache := (cache s)(k := None), lru_size := lru_size s - 1\<rparr>"
  from r c have x: "x \<in> set rs" and kx: "get_key (heap s) x = Some k" by (auto simp: rep_def)
  have ch: "chain s rs" and d: "distinct rs" using r by (simp_all add: rep_def chain_def)
  have 1: "chain ?s (remove1 x rs)"
    using removeNode_chain [OF ch x] by (simp add: chain_def)
  have 2: "map (entry_of (heap ?s)) (remove1 x rs) = map Some (without k es)"
    using rep_remove1 [OF r c] by simp
  have 3: "\<forall>k' y. cache ?s k' = Some y \<longleftrightarrow> y \<in> set (remove1 x rs) \<and> get_key (heap ?s) y = Some k'"
  proof (intro allI)
    fix k' y
    show "cache ?s k' = Some y \<longleftrightarrow> y \<in> set (remove1 x rs) \<and> get_key (heap ?s) y = Some k'"
    proof (cases "k' = k")
      case True
      have "\<not> (y \<in> set (remove1 x rs) \<and> get_key (heap s) y = Some k)"
      proof
        assume a: "y \<in> set (remove1 x rs) \<and> get_key (heap s) y = Some k"
        then have "y \<in> set rs" "y \<noteq> x" using d by auto
        moreover have "y = x" using rep_key_inj [OF r \<open>y \<in> set rs\<close> x] a kx by simp
        ultimately show False by simp
      qed
      then show ?thesis using True by (simp add: removeNode_frame)
    next
      case False
      have "cache s k' = Some y \<longleftrightarrow> y \<in> set rs \<and> get_key (heap s) y = Some k'"
        using r by (simp add: rep_def)
      moreover have "get_key (heap s) y = Some k' \<Longrightarrow> y \<noteq> x" using kx False by auto
      ultimately show ?thesis using False d by (auto simp: removeNode_frame)
    qed
  qed
  have 4: "lru_size ?s = int (length (remove1 x rs))"
    using r Suc_length_remove1 [OF x] by (simp add: rep_def)
  have 5: "\<forall>y \<in> dom (heap ?s). y < fresh ?s"
    using r by (simp add: rep_def removeNode_frame)
  show ?thesis unfolding rep_def using 1 2 3 4 5 by blast
qed

lemma moveToHead_frame:
  "cache (moveToHead r s) = cache s"
  "lru_size (moveToHead r s) = lru_size s"
  "hits (moveToHead r s) = hits s"
  "misses (moveToHead r s) = misses s"
  "evictions (moveToHead r s) = evictions s"
  "capacity (moveToHead r s) = capacity s"
  "fresh (moveToHead r s) = fresh s"
  "dom (heap (moveToHead r s)) = dom (heap s)"
  "get_key (heap (moveToHead r s)) = get_key (heap s)"
  "get_value (heap (moveToHead r s)) = get_value (heap s)"
  by (simp_all add: moveToHead_def removeNode_frame addToHead_frame)

lemma entry_of_moveToHead [simp]: "entry_of (heap (moveToHead r s)) = entry_of (heap s)"
  by (rule entry_of_cong) (simp_all add: moveToHead_frame)

lemma moveToHead_rep:
  assumes r: "rep s rs es" and c: "cache s k = Some x" and v: "map_of es k = Some v"
  shows "rep (moveToHead x s) (x # remove1 x rs) ((k, v) # without k es)"
proof -
  from rep_lookup [OF r c] v have ex: "entry_of (heap s) x = Some (k, v)" and x: "x \<in> set rs"
    by auto
  have ch: "chain s rs" and d: "distinct rs" using r by (simp_all add: rep_def chain_def)
  have xd: "x \<in> dom (heap s)" using ch x by (auto simp: chain_def)
  have set_eq: "set (x # remove1 x rs) = set rs" using x d by auto
  have len_eq: "length (x # remove1 x rs) = length rs"
    using Suc_length_remove1 [OF x] by simp
  have m: "map (entry_of (heap s)) (x # remove1 x rs) = map Some ((k, v) # without k es)"
    using rep_remove1 [OF r c] ex by simp
  have ix: "\<forall>k' y. cache s k' = Some y \<longleftrightarrow> y \<in> set rs \<and> get_key (heap s) y = Some k'"
    using r by (simp add: rep_def)
  have fr: "\<forall>y \<in> dom (heap s). y < fresh s" using r by (simp add: rep_def)
  have sz: "lru_size s = int (length rs)" using r by (simp add: rep_def)
  have "chain (moveToHead x s) (x # remove1 x rs)"
  proof (cases "head s = Some x")
    case True
    then obtain rs' where "rs = x # rs'" using ch by (cases rs) (auto simp: chain_def)
    then show ?thesis using True ch by (simp add: moveToHead_def)
  next
    case False
    have "chain (removeNode x s) (remove1 x rs)" by (rule removeNode_chain [OF ch x])
    moreover have "x \<notin> set (remove1 x rs)" using d by simp
    moreover have "x \<in> dom (heap (removeNode x s))" using xd by (simp add: removeNode_frame)
    ultimately show ?thesis using False by (simp add: moveToHead_def addToHead_chain)
  qed
  then show ?thesis
    unfolding rep_def using m ix fr sz
    by (simp only: set_eq len_eq moveToHead_frame entry_of_moveToHead) simp
qed

lemma entry_of_set_value:
  "entry_of (set_value h x v) y =
     (if y = x then map_option (\<lambda>e. (fst e, v)) (entry_of h x) else entry_of h y)"
  by (auto simp: entry_of_def set_value_def split: option.splits)

lemma set_value_rep:
  assumes r: "rep s rs es" and c: "cache s k = Some x"
  shows "rep (s\<lparr>heap := set_value (heap s) x v\<rparr>) rs
           (map (\<lambda>e. if fst e = k then (k, v) else e) es)"
proof -
  let ?s = "s\<lparr>heap := set_value (heap s) x v\<rparr>"
  let ?f = "\<lambda>e. if fst e = k then (k, v) else e"
  have ch: "chain ?s rs" using r by (simp add: rep_def chain_def store_simps)
  have "map (entry_of (heap ?s)) rs = map (map_option ?f) (map (entry_of (heap s)) rs)"
  proof -
    have "entry_of (heap ?s) y = map_option ?f (entry_of (heap s) y)" if "y \<in> set rs" for y
    proof -
      from r that have "y \<in> dom (heap s)" by (auto simp: rep_def chain_def)
      then obtain e where e: "entry_of (heap s) y = Some e" by (auto simp: entry_of_def)
      from rep_ref_key [OF r c that e] have "y = x \<longleftrightarrow> fst e = k" by auto
      then show ?thesis using e by (cases e) (auto simp: entry_of_set_value)
    qed
    then show ?thesis by simp
  qed
  also have "\<dots> = map Some (map ?f es)" using r by (simp add: rep_def comp_def)
  finally have m: "map (entry_of (heap ?s)) rs = map Some (map ?f es)" .
  show ?thesis unfolding rep_def using r ch m by (simp add: rep_def store_simps)
qed

lemma without_map_upd:
  "without k (map (\<lambda>e. if fst e = k then (k, v) else e) es) = without k es"
  by (induction es) (auto simp: without_def)

lemma map_of_map_upd:
  "k \<in> fst ` set es \<Longrightarrow> map_of (map (\<lambda>e. if fst e = k then (k, v) else e) es) k = Some v"
  by (induction es) auto

text \<open>Allocating a node for a key that is not indexed, and linking it at the head.\<close>

lemma insert_rep:
  fixes s :: "('k, 'v) LRUCache" and v :: 'v
  assumes r: "rep s rs es" and c: "cache s k = None"
  defines "node \<equiv> fresh s"
  defines "s2 \<equiv> s\<lparr>heap := (heap s)(node \<mapsto> \<lparr>nkey = k, nvalue = v, nprev = None, nnext = None\<rparr>),
                   fresh := node + 1, cache := (cache s)(k \<mapsto> node)\<rparr>"
  shows "rep ((addToHead node s2)\<lparr>lru_size := lru_size s + 1\<rparr>) (node # rs) ((k, v) # es)"
proof -
  let ?s = "(addToHead node s2)\<lparr>lru_size := lru_size s + 1\<rparr>"
  have fr: "\<forall>y \<in> dom (heap s). y < fresh s" using r by (simp add: rep_def)
  then have nd: "node \<notin> dom (heap s)" by (auto simp: node_def)
  have sub: "set rs \<subseteq> dom (heap s)" using r by (simp add: rep_def chain_def)
  with nd have nrs: "node \<notin> set rs" by auto
  have "chain s2 rs"
    using r nrs by (auto simp: rep_def chain_def s2_def get_alloc path_upd)
  moreover have "node \<in> dom (heap s2)" by (simp add: s2_def)
  ultimately have ch: "chain (addToHead node s2) (node # rs)"
    using nrs by (simp add: addToHead_chain)
  then have 1: "chain ?s (node # rs)" by (simp add: chain_def)
  have e2: "entry_of (heap s2) = (entry_of (heap s))(node \<mapsto> (k, v))"
    by (rule ext) (simp add: s2_def entry_of_def)
  have 2: "map (entry_of (heap ?s)) (node # rs) = map Some ((k, v) # es)"
    using r nrs by (simp add: e2 rep_def)
  have k2: "get_key (heap s2) = (get_key (heap s))(node \<mapsto> k)"
    by (simp add: s2_def get_alloc)
  have c2: "cache s2 = (cache s)(k \<mapsto> node)" by (simp add: s2_def)
  have ix: "\<forall>k' y. cache s k' = Some y \<longleftrightarrow> y \<in> set rs \<and> get_key (heap s) y = Some k'"
    using r by (simp add: rep_def)
  have nk: "\<not> (\<exists>y \<in> set rs. get_key (heap s) y = Some k)"
  proof
    assume "\<exists>y \<in> set rs. get_key (heap s) y = Some k"
    then obtain y where "y \<in> set rs" "get_key (heap s) y = Some k" by auto
    then have "cache s k = Some y" using ix by blast
    then show False using c by simp
  qed
  have 3: "\<forall>k' y. cache ?s k' = Some y \<longleftrightarrow> y \<in> set (node # rs) \<and> get_key (heap ?s) y = Some k'"
    using ix nrs nk by (auto simp: addToHead_frame k2 c2)
  have 4: "lru_size ?s = int (length (node # rs))" using r by (simp add: rep_def)
  have d2: "dom (heap s2) = insert node (dom (heap s))" "fresh s2 = Suc node"
    by (simp_all add: s2_def)
  have 5: "\<forall>y \<in> dom (heap ?s). y < fresh ?s"
    using fr by (auto simp: addToHead_frame d2 node_def less_Suc_eq)
  show ?thesis unfolding rep_def using 1 2 3 4 5 by blast
qed

lemma without_last:
  assumes "distinct (map fst es)" "es \<noteq> []"
  shows "without (fst (last es)) es = butlast es"
proof -
  from assms(2) obtain es' e where es: "es = es' @ [e]" by (cases es rule: rev_cases) auto
  with assms(1) have "fst e \<notin> fst ` set es'" by auto
  then have "without (fst e) es' = es'" by (rule without_absent)
  then show ?thesis using es by (simp add: without_def)
qed

lemma evictTail_rep:
  assumes r: "rep s rs es" and ne: "es \<noteq> []"
  shows "rep (evictTail s) (butlast rs) (butlast es)"
    and "evictions (evictTail s) = evictions s + 1"
    and "capacity (evictTail s) = capacity s"
    and "hits (evictTail s) = hits s" and "misses (evictTail s) = misses s"
proof -
  from ne rep_length [OF r] obtain rs' t where rs: "rs = rs' @ [t]"
    by (cases rs rule: rev_cases) auto
  have tl: "tail s = Some t" using r rs by (simp add: rep_def chain_def)
  have et: "entry_of (heap s) t = Some (last es)"
    using rep_nth [OF r, of "length rs'"] rs ne rep_length [OF r] by (simp add: last_conv_nth)
  then have kt: "get_key (heap s) t = Some (fst (last es))" by (simp add: get_key_entry)
  then have c: "cache s (fst (last es)) = Some t" using r rs by (simp add: rep_def)
  have d: "distinct rs" using r by (simp add: rep_def chain_def)
  have rm: "remove1 t rs = butlast rs" using d rs by (simp add: remove1_append)
  have ev: "evictTail s =
      ((removeNode t s)\<lparr>cache := (cache s)(fst (last es) := None), lru_size := lru_size s - 1\<rparr>)
        \<lparr>evictions := evictions s + 1\<rparr>"
    using tl kt by (simp add: evictTail_def Let_def removeNode_frame)
  show "rep (evictTail s) (butlast rs) (butlast es)"
    using drop_rep [OF r c] without_last [OF rep_distinct_keys [OF r] ne]
    by (simp add: ev rm)
  show "evictions (evictTail s) = evictions s + 1" by (simp add: ev)
  show "capacity (evictTail s) = capacity s" by (simp add: ev removeNode_frame)
  show "hits (evictTail s) = hits s" by (simp add: ev removeNode_frame)
  show "misses (evictTail s) = misses s" by (simp add: ev removeNode_frame)
qed

lemma get_rep:
  assumes r: "rep s rs es"
  shows "\<exists>rs'. rep (snd (get k s)) rs' (entries_after c (Get k) es)"
    and "fst (get k s) = map_of es k"
proof -
  show "\<exists>rs'. rep (snd (get k s)) rs' (entries_after c (Get k) es)"
  proof (cases "cache s k")
    case None
    then have "peek k s = None" by (simp add: peek_def)
    then have "map_of es k = None" using rep_peek [OF r] by simp
    then show ?thesis using None r by (auto simp: get_def)
  next
    case (Some x)
    from rep_lookup [OF r Some] obtain v where v: "map_of es k = Some v" by auto
    have r': "rep (s\<lparr>hits := hits s + 1\<rparr>) rs es" using r by simp
    have "rep (moveToHead x (s\<lparr>hits := hits s + 1\<rparr>)) (x # remove1 x rs) ((k, v) # without k es)"
      using moveToHead_rep [OF r' _ v] Some by simp
    then show ?thesis using Some v by (auto simp: get_def Let_def)
  qed
  show "fst (get k s) = map_of es k"
  proof (cases "cache s k")
    case None
    then have "peek k s = None" by (simp add: peek_def)
    then have "map_of es k = None" using rep_peek [OF r] by simp
    then show ?thesis using None by (simp add: get_def)
  next
    case (Some x)
    from rep_lookup [OF r Some] obtain v where v: "map_of es k = Some v"
      "entry_of (heap s) x = Some (k, v)" by auto
    then show ?thesis using Some by (simp add: get_def Let_def get_value_entry)
  qed
qed

lemma put_rep:
  assumes r: "rep s rs es"
  shows "\<exists>rs'. rep (put k v s) rs' (entries_after (capacity s) (Put k v) es)"
proof (cases "cache s k")
  case None
  then have nk: "k \<notin> fst ` set es" using rep_has [OF r, of k] by (simp add: has_def)
  let ?s2 = "s\<lparr>heap := (heap s)(fresh s \<mapsto> \<lparr>nkey = k, nvalue = v, nprev = None, nnext = None\<rparr>),
               fresh := fresh s + 1, cache := (cache s)(k \<mapsto> fresh s)\<rparr>"
  let ?s4 = "(addToHead (fresh s) ?s2)\<lparr>lru_size := lru_size s + 1\<rparr>"
  have r4: "rep ?s4 (fresh s # rs) ((k, v) # es)" using insert_rep [OF r None] by simp
  have p: "put k v s = (if exceeds (lru_size s + 1) (capacity s) then evictTail ?s4 else ?s4)"
    using None by (simp add: put_def Let_def addToHead_frame)
  have sz: "lru_size s = int (length es)" using r rep_length [OF r] by (simp add: rep_def)
  show ?thesis
  proof (cases "exceeds (lru_size s + 1) (capacity s)")
    case True
    have "rep (evictTail ?s4) (butlast (fresh s # rs)) (butlast ((k, v) # es))"
      using evictTail_rep(1) [OF r4] by simp
    then show ?thesis using True nk p sz by auto
  next
    case False
    then show ?thesis using nk p sz r4 by auto
  qed
next
  case (Some x)
  then have hk: "k \<in> fst ` set es" using rep_has [OF r, of k] by (simp add: has_def)
  let ?f = "\<lambda>e. if fst e = k then (k, v) else e"
  let ?s1 = "s\<lparr>heap := set_value (heap s) x v\<rparr>"
  have r1: "rep ?s1 rs (map ?f es)" by (rule set_value_rep [OF r Some])
  have c1: "cache ?s1 k = Some x" using Some by simp
  have "rep (moveToHead x ?s1) (x # remove1 x rs) ((k, v) # without k (map ?f es))"
    by (rule moveToHead_rep [OF r1 c1 map_of_map_upd [OF hk]])
  then show ?thesis using Some hk by (auto simp: put_def without_map_upd)
qed

lemma delete_rep:
  assumes r: "rep s rs es"
  shows "\<exists>rs'. rep (snd (delete k s)) rs' (entries_after c (Delete k) es)"
    and "fst (delete k s) = has k s"
proof -
  show "\<exists>rs'. rep (snd (delete k s)) rs' (entries_after c (Delete k) es)"
  proof (cases "cache s k")
    case None
    then have "k \<notin> fst ` set es" using rep_has [OF r, of k] by (simp add: has_def)
    then show ?thesis using None r by (auto simp: delete_def without_absent)
  next
    case (Some x)
    then show ?thesis using drop_rep [OF r Some]
      by (auto simp: delete_def Let_def removeNode_frame)
  qed
  show "fst (delete k s) = has k s"
    by (cases "cache s k") (simp_all add: delete_def has_def Let_def)
qed

lemma clear_rep:
  assumes r: "rep s rs es"
  shows "\<exists>s'. clear s = Some s' \<and> rep s' [] [] \<and> capacity s' = capacity s
           \<and> hits s' = 0 \<and> misses s' = 0 \<and> evictions s' = 0"
proof -
  from r have "path (get_next (heap s)) (head s) rs None" "distinct rs"
    by (simp_all add: rep_def chain_def)
  from clear_loop_path [OF this] obtain h' where h': "clear_loop (heap s) (head s) = Some h'"
    "dom h' = dom (heap s)" by auto
  then show ?thesis using r by (simp add: clear_def rep_def chain_def)
qed

lemma step_capacity: "step c s = Some s' \<Longrightarrow> capacity s' = capacity s"
  by (cases c)
    (auto simp: get_def put_def delete_def clear_def resetStats_def Let_def moveToHead_frame
      removeNode_frame addToHead_frame evictTail_def split: option.splits)

lemma step_refines:
  assumes "refines s es"
  shows "\<exists>s'. step c s = Some s' \<and> refines s' (entries_after (capacity s) c es)"
proof -
  from assms obtain rs where r: "rep s rs es" by (auto simp: refines_def)
  show ?thesis
  proof (cases c)
    case (Get k)
    then show ?thesis using get_rep(1) [OF r] by (auto simp: refines_def)
  next
    case (Put k v)
    then show ?thesis using put_rep [OF r] by (auto simp: refines_def)
  next
    case (Delete k)
    then show ?thesis using delete_rep(1) [OF r] by (auto simp: refines_def)
  next
    case Clear
    then show ?thesis using clear_rep [OF r] by (auto simp: refines_def)
  next
    case ResetStats
    then show ?thesis using r by (auto simp: refines_def resetStats_def)
  next
    case (Has k)
    then show ?thesis using r by (auto simp: refines_def)
  next
    case (Peek k)
    then show ?thesis using r by (auto simp: refines_def)
  qed
qed

section \<open>Sequences of calls\<close>

lemma run_append:
  "run (cs @ ds) s = (case run cs s of None \<Rightarrow> None | Some s' \<Rightarrow> run ds s')"
  by (induction cs arbitrary: s) (auto split: option.splits)

lemma run_reads: "\<forall>c \<in> set reads. is_read c \<Longrightarrow> run reads s = Some s"
proof (induction reads)
  case Nil
  then show ?case by simp
next
  case (Cons c reads)
  then have "is_read c" by simp
  then have "step c s = Some s" by (cases c) auto
  then show ?case using Cons by simp
qed

section \<open>Construction\<close>

text \<open>
  Claim C7, as the code has it. The constructor throws for every capacity with
  \<^verbatim>\<open>capacity <= 0\<close>, and for every finite capacity greater than zero, integer or not,
  it builds the empty cache with the capacity stored as given, not clamped; the positive
  integers are among these.
\<close>

theorem constructor_guard:
  "(le_zero c \<longrightarrow> (new_LRUCache c :: error + ('k, 'v) LRUCache) = Inl InvalidCapacity) \<and>
   (positive_finite c \<longrightarrow>
      (new_LRUCache c :: error + ('k, 'v) LRUCache) =
        Inr \<lparr>capacity = c, cache = Map.empty, head = None, tail = None, lru_size = 0,
             hits = 0, misses = 0, evictions = 0, heap = Map.empty, fresh = 0\<rparr>) \<and>
   (positive_integer c \<longrightarrow> positive_finite c)"
  by (cases c) (auto simp: new_LRUCache_def)

theorem constructor_guard_witness:
  "le_zero (Finite 0) \<and>
   (new_LRUCache (Finite 0) :: error + (string, int) LRUCache) = Inl InvalidCapacity \<and>
   positive_integer (Finite 3) \<and> positive_finite (Finite 3) \<and>
   (new_LRUCache (Finite 3) :: error + (string, int) LRUCache) =
     Inr \<lparr>capacity = Finite 3, cache = Map.empty, head = None, tail = None, lru_size = 0,
          hits = 0, misses = 0, evictions = 0, heap = Map.empty, fresh = 0\<rparr>"
  using constructor_guard [of "Finite 0", where ?'k = string and ?'v = int]
    constructor_guard [of "Finite 3", where ?'k = string and ?'v = int]
  by simp

text \<open>
  Claim C7 as stated fails: \<open>5 / 2\<close> is not a positive integer, and
  \<^verbatim>\<open>new LRUCache(2.5)\<close> does not throw.
\<close>

theorem constructor_accepts_fraction:
  "\<not> positive_integer (Finite (5 / 2)) \<and>
   \<not> isl (new_LRUCache (Finite (5 / 2)) :: error + (string, int) LRUCache)"
  by code_simp

section \<open>Calls that leave the cache alone\<close>

text \<open>
  Claim C10. \<^verbatim>\<open>resetStats()\<close> sets the three counters to zero and changes nothing
  else: putting the old counter values back gives the cache as it was, and size, capacity,
  index, store, head, tail, the keys and entries in recency order, and every \<^verbatim>\<open>has\<close>
  and \<^verbatim>\<open>peek\<close> answer are as before.
\<close>

theorem resetStats_frame:
  "hits (resetStats s) = 0 \<and> misses (resetStats s) = 0 \<and> evictions (resetStats s) = 0 \<and>
   (resetStats s)\<lparr>hits := hits s, misses := misses s, evictions := evictions s\<rparr> = s \<and>
   lru_size (resetStats s) = lru_size s \<and> capacity (resetStats s) = capacity s \<and>
   cache (resetStats s) = cache s \<and> heap (resetStats s) = heap s \<and>
   head (resetStats s) = head s \<and> tail (resetStats s) = tail s \<and>
   keys (resetStats s) = keys s \<and> entries (resetStats s) = entries s \<and>
   has k (resetStats s) = has k s \<and> peek k (resetStats s) = peek k s"
  by (simp add: resetStats_def keys_def entries_def has_def peek_def split: option.splits)

text \<open>
  Claim C8. \<^verbatim>\<open>has\<close> and \<^verbatim>\<open>peek\<close> contain no assignment, so a call of either leaves
  the whole cache as it was; hence any number of them, put anywhere into a sequence of
  calls, leads to the same cache (and so to the same next eviction) as the sequence without
  them.
\<close>

theorem reads_do_not_interfere:
  "step (Has k) s = Some s \<and> step (Peek k) s = Some s \<and>
   ((\<forall>c \<in> set reads. is_read c) \<longrightarrow>
      run (cs1 @ reads @ cs2) s = run (cs1 @ cs2) s \<and>
      session c (cs1 @ reads @ cs2) = session c (cs1 @ cs2))"
proof -
  have "run (cs1 @ reads @ cs2) s' = run (cs1 @ cs2) s'" if "\<forall>c \<in> set reads. is_read c" for s'
    using that by (auto simp: run_append run_reads split: option.splits)
  then show ?thesis by (auto simp: session_def split: sum.splits)
qed

section \<open>Every session is represented\<close>

lemma run_refines:
  "refines s es \<Longrightarrow>
   \<exists>s'. run cs s = Some s' \<and> refines s' (entries_run (capacity s) cs es) \<and> capacity s' = capacity s"
proof (induction cs arbitrary: s es)
  case Nil
  then show ?case by simp
next
  case (Cons x cs)
  from step_refines [OF Cons.prems, of x] obtain s1 where
    s1: "step x s = Some s1" "refines s1 (entries_after (capacity s) x es)" by auto
  have c1: "capacity s1 = capacity s" using s1(1) by (rule step_capacity)
  from Cons.IH [OF s1(2), unfolded c1] obtain s' where
    "run cs s1 = Some s'" "refines s' (entries_run (capacity s) cs (entries_after (capacity s) x es))"
    "capacity s' = capacity s" by auto
  then show ?case using s1(1) by simp
qed

lemma session_refines:
  assumes "\<not> le_zero c"
  shows "\<exists>s. session c cs = Some s \<and> refines s (entries_run c cs []) \<and> capacity s = c"
proof -
  let ?s0 = "\<lparr>capacity = c, cache = Map.empty, head = None, tail = None, lru_size = 0,
               hits = 0, misses = 0, evictions = 0, heap = Map.empty, fresh = 0\<rparr> :: ('a, 'b) LRUCache"
  have "rep ?s0 [] []" by (simp add: rep_def chain_def)
  then have "refines ?s0 []" by (auto simp: refines_def)
  from run_refines [OF this, of cs] show ?thesis
    using assms by (auto simp: session_def new_LRUCache_def)
qed

lemma entries_run_snoc: "entries_run c (cs @ [x]) es = entries_after c x (entries_run c cs es)"
  by (induction cs arbitrary: es) auto

lemma session_snoc:
  "session c cs = Some s \<Longrightarrow> session c (cs @ [x]) = step x s"
  by (auto simp: session_def run_append split: sum.splits option.splits)

lemma refines_size: "refines s es \<Longrightarrow> lru_size s = int (length es)"
  using rep_length by (fastforce simp: refines_def rep_def)

lemma refines_distinct: "refines s es \<Longrightarrow> distinct (map fst es)"
  using rep_distinct_keys by (auto simp: refines_def)

lemma refines_has:
  assumes "refines s es"
  shows "has k s \<longleftrightarrow> k \<in> fst ` set es"
proof -
  from assms obtain rs where "rep s rs es" by (auto simp: refines_def)
  then show ?thesis by (rule rep_has)
qed

lemma refines_entries:
  assumes "refines s es"
  shows "entries s = Some es" "keys s = Some (map fst es)"
proof -
  from assms obtain rs where r: "rep s rs es" by (auto simp: refines_def)
  show "entries s = Some es" by (rule rep_entries [OF r])
  show "keys s = Some (map fst es)" by (rule rep_keys [OF r])
qed

section \<open>Index and chain\<close>

text \<open>
  Claim C1. After every sequence of public calls on a cache the constructor accepted, the
  calls have all returned, and there is a head-to-tail chain \<open>rs\<close> such that: a key is in
  the index map exactly when a node of the chain carries it; the node the index maps a key
  to is a node of the chain and carries that key; and the size counter equals both the
  number of index entries and the number of nodes of the chain. Every prefix of a sequence
  of calls is a sequence of calls, so this holds after each call.
\<close>

theorem index_matches_chain:
  assumes "\<not> le_zero c"
  shows "\<exists>s rs. session c cs = Some s \<and> chain s rs \<and>
           (\<forall>k. k \<in> dom (cache s) \<longleftrightarrow> (\<exists>r \<in> set rs. get_key (heap s) r = Some k)) \<and>
           (\<forall>k r. cache s k = Some r \<longrightarrow> r \<in> set rs \<and> get_key (heap s) r = Some k) \<and>
           lru_size s = int (card (dom (cache s))) \<and> lru_size s = int (length rs)"
proof -
  from session_refines [OF assms, of cs] obtain s es where
    s: "session c cs = Some s" and "refines s es" by blast
  then obtain rs where r: "rep s rs es" by (auto simp: refines_def)
  have ix: "\<forall>k r. cache s k = Some r \<longleftrightarrow> r \<in> set rs \<and> get_key (heap s) r = Some k"
    using r by (simp add: rep_def)
  have "dom (cache s) = set (map fst es)"
    using rep_has [OF r] by (auto simp: has_def)
  then have "card (dom (cache s)) = length es"
    using rep_distinct_keys [OF r] distinct_card [of "map fst es"] by simp
  then have cd: "lru_size s = int (card (dom (cache s)))"
    using r rep_length [OF r] by (simp add: rep_def)
  have "chain s rs" "lru_size s = int (length rs)" using r by (simp_all add: rep_def)
  moreover have "\<forall>k. k \<in> dom (cache s) \<longleftrightarrow> (\<exists>r \<in> set rs. get_key (heap s) r = Some k)"
    using ix by (auto simp: dom_def)
  ultimately show ?thesis using s ix cd by blast
qed

section \<open>Counters\<close>

lemma evictTail_frame:
  "hits (evictTail s) = hits s" "misses (evictTail s) = misses s"
  "capacity (evictTail s) = capacity s"
  "lru_size (evictTail s) + evictions (evictTail s) = lru_size s + evictions s"
  by (simp_all add: evictTail_def Let_def removeNode_frame split: option.splits)

lemma get_counters:
  "hits (snd (get k s)) + misses (snd (get k s)) = hits s + misses s + 1"
  "lru_size (snd (get k s)) = lru_size s" "evictions (snd (get k s)) = evictions s"
  by (simp_all add: get_def Let_def moveToHead_frame split: option.splits)

lemma put_counters:
  "hits (put k v s) = hits s" "misses (put k v s) = misses s"
  "lru_size (put k v s) + evictions (put k v s) =
     lru_size s + evictions s + (if has k s then 0 else 1)"
proof -
  show "hits (put k v s) = hits s" "misses (put k v s) = misses s"
    by (simp_all add: put_def Let_def moveToHead_frame addToHead_frame evictTail_frame
        split: option.splits)
  show "lru_size (put k v s) + evictions (put k v s) =
     lru_size s + evictions s + (if has k s then 0 else 1)"
    by (simp add: put_def has_def Let_def moveToHead_frame addToHead_frame evictTail_frame
        split: option.splits)
qed

lemma delete_counters:
  "hits (snd (delete k s)) = hits s" "misses (snd (delete k s)) = misses s"
  "evictions (snd (delete k s)) = evictions s"
  "lru_size (snd (delete k s)) = lru_size s - (if fst (delete k s) then 1 else 0)"
  by (simp_all add: delete_def Let_def removeNode_frame split: option.splits)

lemma clear_counters:
  "clear s = Some s' \<Longrightarrow> hits s' = 0 \<and> misses s' = 0 \<and> evictions s' = 0 \<and> lru_size s' = 0"
  by (auto simp: clear_def split: option.splits)

lemma run_gets:
  "run cs s = Some s' \<Longrightarrow> hits s' + misses s' = gets_since_reset (hits s + misses s) cs"
proof (induction cs arbitrary: s)
  case Nil
  then show ?case by simp
next
  case (Cons x cs)
  then obtain s1 where s1: "step x s = Some s1" "run cs s1 = Some s'"
    by (auto split: option.splits)
  note ih = Cons.IH [OF s1(2)]
  show ?case
  proof (cases x)
    case (Get k)
    then show ?thesis using s1 ih get_counters(1) [of k s] by auto
  next
    case (Put k v)
    then show ?thesis using s1 ih by (auto simp: put_counters)
  next
    case (Delete k)
    then show ?thesis using s1 ih by (auto simp: delete_counters)
  next
    case Clear
    then show ?thesis using s1 ih clear_counters [of s s1] by auto
  next
    case ResetStats
    then show ?thesis using s1 ih by (auto simp: resetStats_def)
  next
    case (Has k)
    then show ?thesis using s1 ih by auto
  next
    case (Peek k)
    then show ?thesis using s1 ih by auto
  qed
qed

text \<open>
  Claim C5, as the code has it. After every sequence of calls, \<open>hits + misses\<close> is the
  number of \<^verbatim>\<open>get\<close> calls made since the last \<^verbatim>\<open>clear\<close> or \<^verbatim>\<open>resetStats\<close>
  (or since construction), and \<^verbatim>\<open>hitRate\<close> is \<open>hits / (hits + misses)\<close> when that
  number is not zero and \<open>0\<close> when it is. The quotient is the exact one; the double the
  code returns is its rounding.
\<close>

theorem hits_plus_misses_count_gets:
  assumes "\<not> le_zero c"
  shows "\<exists>s. session c cs = Some s \<and>
           hits s + misses s = gets_since_reset 0 cs \<and>
           hitRate s =
             (if gets_since_reset 0 cs = 0 then 0
              else of_int (hits s) / of_int (hits s + misses s))"
proof -
  from session_refines [OF assms, of cs] obtain s where s: "session c cs = Some s" by blast
  then have "hits s + misses s = gets_since_reset 0 cs"
    using assms run_gets [of cs _ s] by (auto simp: session_def new_LRUCache_def)
  then show ?thesis using s by (simp add: hitRate_def Let_def)
qed

text \<open>
  Claim C5 as stated fails: after \<^verbatim>\<open>get('a')\<close> and \<^verbatim>\<open>resetStats()\<close> both counters
  are zero, although one \<^verbatim>\<open>get\<close> was made since construction and no \<^verbatim>\<open>clear\<close>.
\<close>

theorem resetStats_forgets_gets:
  "map_option hits (session (Finite 3) [Get ''a'', ResetStats :: (string, int) call]) = Some 0 \<and>
   map_option misses (session (Finite 3) [Get ''a'', ResetStats :: (string, int) call]) = Some 0 \<and>
   gets_since_clear 0 [Get ''a'', ResetStats :: (string, int) call] = 1"
  by code_simp

section \<open>Capacity and the tally\<close>

lemma step_tally:
  assumes "step x s = Some s'" "lru_size s = inserted t - deleted t - evicted t"
  shows "lru_size s' = inserted (tally_step x s t) - deleted (tally_step x s t)
           - evicted (tally_step x s t)"
proof (cases x)
  case (Get k)
  then show ?thesis using assms by (auto simp: get_counters)
next
  case (Put k v)
  then show ?thesis using assms put_counters(3) [of k v s] by auto
next
  case (Delete k)
  then show ?thesis using assms by (auto simp: delete_counters)
next
  case Clear
  then show ?thesis using assms clear_counters [of s s'] by auto
next
  case ResetStats
  then show ?thesis using assms by (auto simp: resetStats_def)
next
  case (Has k)
  then show ?thesis using assms by auto
next
  case (Peek k)
  then show ?thesis using assms by auto
qed

lemma run_tally:
  "run cs s = Some s' \<Longrightarrow> lru_size s = inserted t - deleted t - evicted t \<Longrightarrow>
   \<exists>t'. tally_run cs s t = Some t' \<and> lru_size s' = inserted t' - deleted t' - evicted t'"
proof (induction cs arbitrary: s t)
  case Nil
  then show ?case by simp
next
  case (Cons x cs)
  then obtain s1 where s1: "step x s = Some s1" "run cs s1 = Some s'"
    by (auto split: option.splits)
  from Cons.IH [OF s1(2) step_tally [OF s1(1) Cons.prems(2)]] show ?case using s1 by simp
qed

lemma length_without:
  "distinct (map fst es) \<Longrightarrow> k \<in> fst ` set es \<Longrightarrow> Suc (length (without k es)) = length es"
proof (induction es)
  case Nil
  then show ?case by simp
next
  case (Cons e es)
  show ?case
  proof (cases "fst e = k")
    case True
    with Cons.prems have "k \<notin> fst ` set es" by auto
    then have "without k es = es" by (rule without_absent)
    then have "filter (\<lambda>e. fst e \<noteq> k) es = es" by (simp add: without_def)
    then show ?thesis using True by (simp add: without_def)
  next
    case False
    then show ?thesis using Cons by (auto simp: without_def)
  qed
qed

lemma length_without_le: "length (without k es) \<le> length es"
  by (simp add: without_def)

lemma at_most_mono: "at_most n c \<Longrightarrow> m \<le> n \<Longrightarrow> at_most m c"
  by (cases c) auto

lemma not_exceeds_at_most: "c \<noteq> NaN \<Longrightarrow> \<not> le_zero c \<Longrightarrow> \<not> exceeds n c \<Longrightarrow> at_most n c"
  by (cases c) auto

lemma entries_after_bound:
  assumes c: "c \<noteq> NaN" "\<not> le_zero c" and d: "distinct (map fst es)"
    and b: "at_most (int (length es)) c"
  shows "at_most (int (length (entries_after c x es))) c"
proof (cases x)
  case (Get k)
  show ?thesis
  proof (cases "map_of es k")
    case None
    then show ?thesis using Get b by simp
  next
    case (Some v)
    then have "k \<in> fst ` set es" by (metis map_of_eq_None_iff option.distinct(1))
    then show ?thesis using Get Some b length_without [OF d] by simp
  qed
next
  case (Put k v)
  show ?thesis
  proof (cases "k \<in> fst ` set es")
    case True
    then show ?thesis using Put b length_without [OF d True] by simp
  next
    case False
    show ?thesis
    proof (cases "exceeds (int (length es) + 1) c")
      case True
      then show ?thesis using Put False b by auto
    next
      case e: False
      then show ?thesis using Put False not_exceeds_at_most [OF c e] by (simp add: add.commute)
    qed
  qed
next
  case (Delete k)
  then show ?thesis using at_most_mono [OF b, of "int (length (without k es))"]
    by (simp add: length_without_le)
next
  case Clear
  then show ?thesis using c by (cases c) auto
qed (use b in auto)

lemma entries_run_bound:
  assumes c: "c \<noteq> NaN" "\<not> le_zero c"
  shows "at_most (int (length (entries_run c cs []))) c"
proof (induction cs rule: rev_induct)
  case Nil
  then show ?case using c by (cases c) auto
next
  case (snoc x cs)
  from session_refines [OF c(2), of cs] obtain s :: "('a, 'b) LRUCache"
    where "refines s (entries_run c cs [])" by blast
  then have "distinct (map fst (entries_run c cs []))" by (rule refines_distinct)
  from entries_after_bound [OF c this snoc.IH] show ?case by (simp add: entries_run_snoc)
qed

text \<open>
  Claim C2, as the code has it. After every sequence of calls on a cache constructed with
  capacity \<open>c\<close>: the size is at most \<open>c\<close> (for every accepted \<open>c\<close> other than NaN, with
  which no comparison holds), and the size equals the number of puts of a key that was not
  present, minus the number of deletes that removed a key, minus the number of evictions,
  each counted since the last \<^verbatim>\<open>clear\<close> (or since construction).
\<close>

theorem size_within_capacity_and_tally:
  assumes "\<not> le_zero c"
  shows "\<exists>s t. session c cs = Some s \<and> session_tally c cs = Some t \<and>
           (c \<noteq> NaN \<longrightarrow> at_most (lru_size s) c) \<and>
           lru_size s = inserted t - deleted t - evicted t"
proof -
  from session_refines [OF assms, of cs] obtain s where
    s: "session c cs = Some s" and r: "refines s (entries_run c cs [])" by blast
  have b: "c \<noteq> NaN \<longrightarrow> at_most (lru_size s) c"
    using entries_run_bound [OF _ assms, of cs] refines_size [OF r]
    by simp
  let ?s0 = "\<lparr>capacity = c, cache = Map.empty, head = None, tail = None, lru_size = 0,
               hits = 0, misses = 0, evictions = 0, heap = Map.empty, fresh = 0\<rparr> :: ('a, 'b) LRUCache"
  have r0: "run cs ?s0 = Some s" using s assms by (simp add: session_def new_LRUCache_def)
  from run_tally [OF r0, of "\<lparr>inserted = 0, deleted = 0, evicted = 0\<rparr>"]
  obtain t where "tally_run cs ?s0 \<lparr>inserted = 0, deleted = 0, evicted = 0\<rparr> = Some t"
    "lru_size s = inserted t - deleted t - evicted t" by auto
  then show ?thesis using s b assms by (auto simp: session_tally_def new_LRUCache_def)
qed

text \<open>
  Claim C2 as stated fails: after \<^verbatim>\<open>put('a', 1)\<close>, \<^verbatim>\<open>delete('a')\<close>,
  \<^verbatim>\<open>put('a', 2)\<close> the size is 1, while one distinct key was ever put, one deletion
  and no eviction happened: \<open>1 - 1 - 0 = 0\<close>.
\<close>

theorem reinserted_key_counted_once:
  "map_option lru_size
     (session (Finite 3) [Put ''a'' 1, Delete ''a'', Put ''a'' (2 :: int)]) = Some 1 \<and>
   length (remdups (put_keys [Put ''a'' 1, Delete ''a'', Put ''a'' (2 :: int)])) = 1 \<and>
   map_option deleted
     (session_tally (Finite 3) [Put ''a'' 1, Delete ''a'', Put ''a'' (2 :: int)]) = Some 1 \<and>
   map_option evicted
     (session_tally (Finite 3) [Put ''a'' 1, Delete ''a'', Put ''a'' (2 :: int)]) = Some 0"
  by code_simp

section \<open>Recency\<close>

lemma map_fst_without: "map fst (without k es) = filter (\<lambda>x. x \<noteq> k) (map fst es)"
  by (simp add: without_def filter_map comp_def)

lemma remdups_snoc: "remdups (xs @ [k]) = remdups (filter (\<lambda>x. x \<noteq> k) xs) @ [k]"
  by (induction xs) auto

lemma last_remdups: "xs \<noteq> [] \<Longrightarrow> last (remdups xs) = last xs"
proof (induction xs)
  case Nil
  then show ?case by simp
next
  case (Cons x xs)
  show ?case
  proof (cases "xs = []")
    case True
    then show ?thesis by simp
  next
    case False
    then have "remdups xs \<noteq> []" by simp
    then show ?thesis using Cons.IH [OF False] False by simp
  qed
qed

lemma ordered_touch:
  assumes "ordered_by_touch es ks"
  shows "ordered_by_touch ((k, v) # without k es) (ks @ [k])"
proof -
  let ?K = "fst ` set es"
  have keys': "fst ` set ((k, v) # without k es) = insert k ?K"
    by (auto simp: without_def)
  have "filter (\<lambda>x. x \<noteq> k) (filter (\<lambda>x. x \<in> insert k ?K) ks)
          = filter (\<lambda>x. x \<noteq> k) (filter (\<lambda>x. x \<in> ?K) ks)"
    by (auto intro: filter_cong)
  then have "remdups (filter (\<lambda>x. x \<in> insert k ?K) (ks @ [k]))
          = filter (\<lambda>x. x \<noteq> k) (remdups (filter (\<lambda>x. x \<in> ?K) ks)) @ [k]"
    by (simp add: remdups_snoc remdups_filter)
  then have "rev (remdups (filter (\<lambda>x. x \<in> insert k ?K) (ks @ [k])))
          = k # filter (\<lambda>x. x \<noteq> k) (rev (remdups (filter (\<lambda>x. x \<in> ?K) ks)))"
    by (simp add: rev_filter)
  also have "\<dots> = k # filter (\<lambda>x. x \<noteq> k) (map fst es)"
    using assms by (simp add: ordered_by_touch_def)
  finally show ?thesis
    unfolding ordered_by_touch_def keys' by (simp add: map_fst_without)
qed

lemma ordered_without:
  assumes "ordered_by_touch es ks"
  shows "ordered_by_touch (without k es) ks"
proof -
  let ?K = "fst ` set es"
  have keys': "fst ` set (without k es) = ?K - {k}" by (rule without_keys)
  have "filter (\<lambda>x. x \<in> ?K - {k}) ks = filter (\<lambda>x. x \<noteq> k) (filter (\<lambda>x. x \<in> ?K) ks)"
    by (auto intro: filter_cong)
  then have "rev (remdups (filter (\<lambda>x. x \<in> ?K - {k}) ks))
          = filter (\<lambda>x. x \<noteq> k) (rev (remdups (filter (\<lambda>x. x \<in> ?K) ks)))"
    by (simp add: remdups_filter rev_filter)
  also have "\<dots> = filter (\<lambda>x. x \<noteq> k) (map fst es)"
    using assms by (simp add: ordered_by_touch_def)
  finally show ?thesis
    unfolding ordered_by_touch_def keys' by (simp add: map_fst_without)
qed

lemma ordered_step:
  assumes r: "refines s es" and o: "ordered_by_touch es ks"
  shows "ordered_by_touch (entries_after c x es) (ks @ touched x s)"
proof (cases x)
  case (Get k)
  show ?thesis
  proof (cases "map_of es k")
    case None
    then have "k \<notin> fst ` set es" by (simp add: map_of_eq_None_iff)
    then have "\<not> has k s" using refines_has [OF r] by simp
    then show ?thesis using Get None o by simp
  next
    case (Some v)
    then have "k \<in> fst ` set es" by (metis map_of_eq_None_iff option.distinct(1))
    then have "has k s" using refines_has [OF r] by simp
    then show ?thesis using Get Some ordered_touch [OF o] by simp
  qed
next
  case (Put k v)
  show ?thesis
  proof (cases "k \<in> fst ` set es")
    case True
    then show ?thesis using Put ordered_touch [OF o] by simp
  next
    case False
    then have w: "without k es = es" by (rule without_absent)
    have o': "ordered_by_touch ((k, v) # es) (ks @ [k])"
      using ordered_touch [OF o, of k v] w by simp
    have d: "distinct (map fst ((k, v) # es))"
      using refines_distinct [OF r] False by simp
    have "butlast ((k, v) # es) = without (fst (last ((k, v) # es))) ((k, v) # es)"
      using without_last [OF d] by simp
    then have "ordered_by_touch (butlast ((k, v) # es)) (ks @ [k])"
      using ordered_without [OF o'] by simp
    then show ?thesis using Put False o' by simp
  qed
next
  case (Delete k)
  then show ?thesis using ordered_without [OF o] by simp
next
  case Clear
  then show ?thesis by (simp add: ordered_by_touch_def)
qed (use o in auto)

lemma run_touches:
  "refines s es \<Longrightarrow> ordered_by_touch es ks \<Longrightarrow>
   \<exists>s' ks'. run cs s = Some s' \<and> touches_run cs s ks = Some ks' \<and>
     refines s' (entries_run (capacity s) cs es) \<and>
     ordered_by_touch (entries_run (capacity s) cs es) ks'"
proof (induction cs arbitrary: s es ks)
  case Nil
  then show ?case by simp
next
  case (Cons x cs)
  from step_refines [OF Cons.prems(1), of x] obtain s1 where
    s1: "step x s = Some s1" "refines s1 (entries_after (capacity s) x es)" by auto
  have c1: "capacity s1 = capacity s" using s1(1) by (rule step_capacity)
  have o1: "ordered_by_touch (entries_after (capacity s) x es) (ks @ touched x s)"
    by (rule ordered_step [OF Cons.prems])
  from Cons.IH [OF s1(2) o1, unfolded c1] show ?case using s1(1) by simp
qed

lemma session_touches_ordered:
  assumes "\<not> le_zero c"
  shows "\<exists>s ks. session c cs = Some s \<and> session_touches c cs = Some ks \<and>
           refines s (entries_run c cs []) \<and> ordered_by_touch (entries_run c cs []) ks"
proof -
  let ?s0 = "\<lparr>capacity = c, cache = Map.empty, head = None, tail = None, lru_size = 0,
               hits = 0, misses = 0, evictions = 0, heap = Map.empty, fresh = 0\<rparr> :: ('a, 'b) LRUCache"
  have "rep ?s0 [] []" by (simp add: rep_def chain_def)
  then have "refines ?s0 []" by (auto simp: refines_def)
  moreover have "ordered_by_touch ([] :: ('a \<times> 'b) list) []" by (simp add: ordered_by_touch_def)
  ultimately show ?thesis
    using run_touches [of ?s0 "[]" "[]" cs] assms
    by (auto simp: session_def session_touches_def new_LRUCache_def)
qed

lemma refines_ends:
  assumes "refines s es"
  shows "getMostRecent s = (case es of [] \<Rightarrow> None | e # _ \<Rightarrow> Some e)"
    and "getLeastRecent s = (if es = [] then None else Some (last es))"
    and "peek k s = map_of es k"
proof -
  from assms obtain rs where r: "rep s rs es" by (auto simp: refines_def)
  show "getMostRecent s = (case es of [] \<Rightarrow> None | e # _ \<Rightarrow> Some e)" by (rule rep_head [OF r])
  show "getLeastRecent s = (if es = [] then None else Some (last es))" by (rule rep_tail [OF r])
  show "peek k s = map_of es k" by (rule rep_peek [OF r])
qed

text \<open>
  Claim C4, as the code has it. After every sequence of calls, the keys from the head to
  the tail are the keys still present, ordered by their latest touch, latest first, where a
  key is touched by every \<^verbatim>\<open>put\<close> of it and by every \<^verbatim>\<open>get\<close> that finds it. So on
  a non-empty cache \<^verbatim>\<open>getMostRecent()\<close> returns the key touched most recently among
  the keys still present, and \<^verbatim>\<open>getLeastRecent()\<close> the key whose latest touch is
  the oldest among them.
\<close>

theorem recency_among_present:
  assumes "\<not> le_zero c"
  shows "\<exists>s ks. session c cs = Some s \<and> session_touches c cs = Some ks \<and>
           keys s = Some (rev (remdups (filter (\<lambda>k. has k s) ks))) \<and>
           (lru_size s \<noteq> 0 \<longrightarrow>
              (\<exists>v w. getMostRecent s = Some (last (filter (\<lambda>k. has k s) ks), v) \<and>
                     getLeastRecent s = Some (hd (remdups (filter (\<lambda>k. has k s) ks)), w)))"
proof -
  from session_touches_ordered [OF assms, of cs] obtain s ks es where
    s: "session c cs = Some s" "session_touches c cs = Some ks"
    and r: "refines s es" and o: "ordered_by_touch es ks" by blast
  let ?p = "filter (\<lambda>k. has k s) ks"
  have "?p = filter (\<lambda>k. k \<in> fst ` set es) ks"
    using refines_has [OF r] by (auto intro: filter_cong)
  then have m: "map fst es = rev (remdups ?p)" using o by (simp add: ordered_by_touch_def)
  have k: "keys s = Some (rev (remdups ?p))" using refines_entries(2) [OF r] m by simp
  have "\<exists>v w. getMostRecent s = Some (last ?p, v) \<and> getLeastRecent s = Some (hd (remdups ?p), w)"
    if "lru_size s \<noteq> 0"
  proof -
    from that refines_size [OF r] have ne: "es \<noteq> []" by auto
    then have pne: "?p \<noteq> []" using m by auto
    have "fst (hd es) = hd (map fst es)" using ne by (simp add: hd_map)
    also have "\<dots> = last (remdups ?p)" using m pne by (simp add: hd_rev)
    also have "\<dots> = last ?p" using pne by (rule last_remdups)
    finally have 1: "fst (hd es) = last ?p" .
    have "fst (last es) = last (map fst es)" using ne by (simp add: last_map)
    also have "\<dots> = hd (remdups ?p)" using m pne by (simp add: last_rev)
    finally have 2: "fst (last es) = hd (remdups ?p)" .
    have "getMostRecent s = Some (hd es)" using refines_ends(1) [OF r] ne by (cases es) auto
    moreover have "getLeastRecent s = Some (last es)" using refines_ends(2) [OF r] ne by simp
    ultimately show ?thesis using 1 2 by (metis prod.collapse)
  qed
  then show ?thesis using s k by blast
qed

text \<open>
  Claim C4 as stated fails: after \<^verbatim>\<open>put('a', 1)\<close>, \<^verbatim>\<open>put('b', 2)\<close>,
  \<^verbatim>\<open>delete('b')\<close> the cache is not empty and the key most recently touched by a
  \<^verbatim>\<open>get\<close> or \<^verbatim>\<open>put\<close> is \<open>b\<close>, but \<^verbatim>\<open>getMostRecent()\<close> returns \<open>a\<close>.
\<close>

theorem most_recent_may_be_deleted:
  "map_option getMostRecent
     (session (Finite 3) [Put ''a'' 1, Put ''b'' 2, Delete ''b'' :: (string, int) call])
     = Some (Some (''a'', 1)) \<and>
   session_touches (Finite 3) [Put ''a'' 1, Put ''b'' 2, Delete ''b'' :: (string, int) call]
     = Some [''a'', ''b'']"
  by code_simp

section \<open>Puts\<close>

lemma head_moveToHead: "head (moveToHead x s) = Some x"
  by (simp add: moveToHead_def addToHead_def Let_def)

lemma put_present:
  assumes r: "refines s es" and h: "has k s"
  shows "refines (put k v s) ((k, v) # without k es)"
    and "head (put k v s) = cache s k" and "cache (put k v s) = cache s"
    and "lru_size (put k v s) = lru_size s" and "evictions (put k v s) = evictions s"
proof -
  from h obtain x where x: "cache s k = Some x" by (auto simp: has_def)
  from step_refines [OF r, of "Put k v"] refines_has [OF r, of k] h
  show "refines (put k v s) ((k, v) # without k es)" by simp
  show "head (put k v s) = cache s k" using x by (simp add: put_def head_moveToHead)
  show "cache (put k v s) = cache s" using x by (simp add: put_def moveToHead_frame)
  show "lru_size (put k v s) = lru_size s" using x by (simp add: put_def moveToHead_frame)
  show "evictions (put k v s) = evictions s" using x by (simp add: put_def moveToHead_frame)
qed

lemma at_most_not_exceeds: "at_most n c \<Longrightarrow> \<not> exceeds n c"
  by (cases c) auto

lemma put_then_present:
  assumes r: "refines s es" and c: "\<not> exceeds 1 (capacity s)"
  shows "has k (put k v s)"
proof -
  let ?es' = "entries_after (capacity s) (Put k v) es"
  from step_refines [OF r, of "Put k v"] have r': "refines (put k v s) ?es'" by simp
  have "k \<in> fst ` set ?es'"
  proof (cases "k \<in> fst ` set es")
    case True
    then show ?thesis by simp
  next
    case False
    show ?thesis
    proof (cases "es = []")
      case True
      then show ?thesis using False c by simp
    next
      case ne: False
      then show ?thesis using False by simp
    qed
  qed
  then show ?thesis using refines_has [OF r'] by simp
qed

lemma put_gone_at_once:
  assumes "k \<notin> fst ` set (entries_after c (Put k v) es)"
  shows "entries_after c (Put k v) es = []" and "exceeds 1 c"
proof -
  have nk: "k \<notin> fst ` set es" using assms by (auto split: if_splits)
  have ex: "exceeds (int (length es) + 1) c" using assms nk by (auto split: if_splits)
  have e: "es = []" using assms nk ex by (cases es) (auto split: if_splits)
  show "entries_after c (Put k v) es = []" using nk ex e by simp
  show "exceeds 1 c" using ex e by simp
qed

lemma put_twice_size:
  assumes r: "refines s es"
  shows "lru_size (put k v2 (put k v1 s)) = lru_size (put k v1 s)"
proof -
  let ?c = "capacity s"
  let ?t = "put k v1 s"
  let ?et = "entries_after ?c (Put k v1) es"
  have rt: "refines ?t ?et" using step_refines [OF r, of "Put k v1"] by simp
  have ct: "capacity ?t = ?c" using step_capacity [of "Put k v1" s ?t] by simp
  show ?thesis
  proof (cases "has k ?t")
    case True
    then show ?thesis by (rule put_present(4) [OF rt])
  next
    case False
    then have "k \<notin> fst ` set ?et" using refines_has [OF rt] by simp
    from put_gone_at_once [OF this] have e: "?et = []" "exceeds 1 ?c" .
    have "refines (put k v2 ?t) (entries_after ?c (Put k v2) ?et)"
      using step_refines [OF rt, of "Put k v2"] ct by simp
    then have "refines (put k v2 ?t) []" using e by simp
    then have "lru_size (put k v2 ?t) = 0" using refines_size by fastforce
    moreover have "lru_size ?t = 0" using refines_size [OF rt] e(1) by simp
    ultimately show ?thesis by simp
  qed
qed

lemma full_size:
  assumes c: "positive_integer c" and b: "at_most n c" and e: "exceeds (n + 1) c"
  shows "c = Finite (of_int n)" and "0 < n"
proof -
  from c obtain r where r: "c = Finite r" "0 < r" "of_int \<lfloor>r\<rfloor> = r" by (cases c) auto
  from b e r have "of_int n \<le> r" "r < of_int (n + 1)" by auto
  then have "\<lfloor>r\<rfloor> = n" by linarith
  then show "c = Finite (of_int n)" using r by simp
  then show "0 < n" using r by simp
qed

lemma room_for_one: "at_most 1 c \<Longrightarrow> exceeds (n + 1) c \<Longrightarrow> n \<noteq> 0"
  by (cases c) auto

lemma keys_butlast:
  assumes "distinct (map fst es)" "es \<noteq> []"
  shows "fst ` set (butlast es) = fst ` set es - {fst (last es)}"
  using without_last [OF assms] without_keys [of "fst (last es)" es] by simp

text \<open>
  Claim C3, as the code has it. Take a cache after any sequence of calls, and a
  \<^verbatim>\<open>put(k, v)\<close> of a key that is not present and whose insertion brings the size
  above the capacity. Then exactly one entry is evicted, the one at the
  tail of the chain after the insertion: the entries are the new one followed by the old
  ones, without the last of them all; the eviction counter grows by exactly 1; the size is
  as it was before the call; hits and misses are unchanged. When the cache was not empty
  (as it always is here when the capacity is at least 1), the evicted entry is the least
  recently used one, which \<^verbatim>\<open>getLeastRecent()\<close> returned before the call: its key is
  gone from the index, every other key stays and \<open>k\<close> is added. When the cache was empty,
  the evicted entry is the one just put. When the capacity is a positive integer, the size
  after the call equals the capacity. In particular, with capacity 3, after put a, put b,
  put c, get a the least recent key is b, and after the following put d the key b is gone,
  a is present and one eviction has been counted.
\<close>

theorem put_absent_evicts_tail:
  assumes "\<not> le_zero c"
  shows "(\<exists>s s'. session c cs = Some s \<and> session c (cs @ [Put k v]) = Some s' \<and>
           (\<not> has k s \<and> exceeds (lru_size s + 1) c \<longrightarrow>
              entries s' = map_option (\<lambda>es. butlast ((k, v) # es)) (entries s) \<and>
              evictions s' = evictions s + 1 \<and> lru_size s' = lru_size s \<and>
              hits s' = hits s \<and> misses s' = misses s \<and>
              (lru_size s \<noteq> 0 \<longrightarrow>
                 (\<exists>kt vt. getLeastRecent s = Some (kt, vt) \<and> \<not> has kt s' \<and>
                    (\<forall>k'. has k' s' \<longleftrightarrow> k' = k \<or> (has k' s \<and> k' \<noteq> kt)))) \<and>
              (lru_size s = 0 \<longrightarrow> (\<forall>k'. \<not> has k' s')) \<and>
              (at_most 1 c \<longrightarrow> lru_size s \<noteq> 0) \<and>
              (positive_integer c \<longrightarrow> c = Finite (of_int (lru_size s'))))) \<and>
         map_option getLeastRecent
           (session (Finite 3)
              [Put ''a'' 1, Put ''b'' 2, Put ''c'' 3, Get ''a'' :: (string, int) call])
           = Some (Some (''b'', 2)) \<and>
         map_option (has ''b'')
           (session (Finite 3)
              [Put ''a'' 1, Put ''b'' 2, Put ''c'' 3, Get ''a'', Put ''d'' (4 :: int)])
           = Some False \<and>
         map_option (has ''a'')
           (session (Finite 3)
              [Put ''a'' 1, Put ''b'' 2, Put ''c'' 3, Get ''a'', Put ''d'' (4 :: int)])
           = Some True \<and>
         map_option evictions
           (session (Finite 3)
              [Put ''a'' 1, Put ''b'' 2, Put ''c'' 3, Get ''a'', Put ''d'' (4 :: int)])
           = Some 1"
proof -
  from session_refines [OF assms, of cs] obtain s where
    s: "session c cs = Some s" and r: "refines s (entries_run c cs [])" and cap: "capacity s = c"
    by blast
  let ?es = "entries_run c cs []"
  let ?s' = "put k v s"
  have s': "session c (cs @ [Put k v]) = Some ?s'" using session_snoc [OF s] by simp
  have r': "refines ?s' (entries_after c (Put k v) ?es)"
    using step_refines [OF r, of "Put k v"] cap by simp
  have general: "entries ?s' = map_option (\<lambda>es. butlast ((k, v) # es)) (entries s) \<and>
              evictions ?s' = evictions s + 1 \<and> lru_size ?s' = lru_size s \<and>
              hits ?s' = hits s \<and> misses ?s' = misses s \<and>
              (lru_size s \<noteq> 0 \<longrightarrow>
                 (\<exists>kt vt. getLeastRecent s = Some (kt, vt) \<and> \<not> has kt ?s' \<and>
                    (\<forall>k'. has k' ?s' \<longleftrightarrow> k' = k \<or> (has k' s \<and> k' \<noteq> kt)))) \<and>
              (lru_size s = 0 \<longrightarrow> (\<forall>k'. \<not> has k' ?s')) \<and>
              (at_most 1 c \<longrightarrow> lru_size s \<noteq> 0) \<and>
              (positive_integer c \<longrightarrow> c = Finite (of_int (lru_size ?s')))"
    if a: "\<not> has k s" "exceeds (lru_size s + 1) c"
  proof -
    have sz: "lru_size s = int (length ?es)" by (rule refines_size [OF r])
    have nk: "k \<notin> fst ` set ?es" using a(1) refines_has [OF r] by simp
    have d: "distinct (map fst ?es)" by (rule refines_distinct [OF r])
    have ea: "entries_after c (Put k v) ?es = butlast ((k, v) # ?es)"
      using nk a(2) sz by (simp del: butlast.simps)
    have r'': "refines ?s' (butlast ((k, v) # ?es))" using r' unfolding ea .
    have en: "entries ?s' = map_option (\<lambda>es. butlast ((k, v) # es)) (entries s)"
      using refines_entries(1) [OF r''] refines_entries(1) [OF r] by (simp del: butlast.simps)
    have sz': "lru_size ?s' = lru_size s"
      using refines_size [OF r''] sz by simp
    have ev: "evictions ?s' = evictions s + 1"
      using put_counters(3) [of k v s] a(1) sz' by simp
    have nonempty: "\<exists>kt vt. getLeastRecent s = Some (kt, vt) \<and> \<not> has kt ?s' \<and>
                    (\<forall>k'. has k' ?s' \<longleftrightarrow> k' = k \<or> (has k' s \<and> k' \<noteq> kt))"
      if "lru_size s \<noteq> 0"
    proof -
      from that sz have ne: "?es \<noteq> []" by auto
      obtain kt vt where l: "last ?es = (kt, vt)" by (cases "last ?es") auto
      have lr: "getLeastRecent s = Some (kt, vt)" using refines_ends(2) [OF r] ne l by simp
      have ks: "fst ` set (butlast ?es) = fst ` set ?es - {kt}"
        using keys_butlast [OF d ne] l by simp
      have r3: "refines ?s' ((k, v) # butlast ?es)" using r'' ne by simp
      have has': "has k' ?s' \<longleftrightarrow> k' = k \<or> (has k' s \<and> k' \<noteq> kt)" for k'
      proof -
        have "has k' ?s' \<longleftrightarrow> k' \<in> insert k (fst ` set ?es - {kt})"
          using refines_has [OF r3, of k'] ks by simp
        moreover have "has k' s \<longleftrightarrow> k' \<in> fst ` set ?es" by (rule refines_has [OF r])
        ultimately show ?thesis by blast
      qed
      have "kt \<in> fst ` set ?es" using l last_in_set [OF ne] by (metis fst_conv image_eqI)
      then have "kt \<noteq> k" using nk by auto
      then have "\<not> has kt ?s'" using has' by simp
      then show ?thesis using lr has' by blast
    qed
    have empty: "\<forall>k'. \<not> has k' ?s'" if "lru_size s = 0"
    proof -
      from that sz have "?es = []" by simp
      then have "refines ?s' []" using r'' by simp
      then show ?thesis using refines_has by fastforce
    qed
    have room: "lru_size s \<noteq> 0" if "at_most 1 c"
      using room_for_one [OF that a(2)] .
    have full: "c = Finite (of_int (lru_size ?s'))" if pc: "positive_integer c"
    proof -
      have nn: "c \<noteq> NaN" using pc by auto
      have b: "at_most (lru_size s) c" using entries_run_bound [OF nn assms, of cs] sz by simp
      from full_size(1) [OF pc b a(2)] show ?thesis using sz' by simp
    qed
    show ?thesis using en ev sz' nonempty empty room full by (simp add: put_counters)
  qed
  have concrete:
    "map_option getLeastRecent
           (session (Finite 3)
              [Put ''a'' 1, Put ''b'' 2, Put ''c'' 3, Get ''a'' :: (string, int) call])
           = Some (Some (''b'', 2)) \<and>
         map_option (has ''b'')
           (session (Finite 3)
              [Put ''a'' 1, Put ''b'' 2, Put ''c'' 3, Get ''a'', Put ''d'' (4 :: int)])
           = Some False \<and>
         map_option (has ''a'')
           (session (Finite 3)
              [Put ''a'' 1, Put ''b'' 2, Put ''c'' 3, Get ''a'', Put ''d'' (4 :: int)])
           = Some True \<and>
         map_option evictions
           (session (Finite 3)
              [Put ''a'' 1, Put ''b'' 2, Put ''c'' 3, Get ''a'', Put ''d'' (4 :: int)])
           = Some 1"
    by code_simp
  show ?thesis using s s' general concrete by blast
qed

text \<open>
  Claim C3 as stated fails on a cache the constructor accepts: with capacity \<open>5 / 2\<close>,
  after put a, put b the key c is absent and the size is 2, so putting c brings the size
  to 3, above the capacity; after the put the size is 2 again, which is not the capacity.
\<close>

theorem eviction_below_fractional_capacity:
  "map_option (has ''c'') (session (Finite (5 / 2)) [Put ''a'' 1, Put ''b'' (2 :: int)])
     = Some False \<and>
   map_option lru_size (session (Finite (5 / 2)) [Put ''a'' 1, Put ''b'' (2 :: int)]) = Some 2 \<and>
   exceeds (2 + 1) (Finite (5 / 2)) \<and>
   map_option lru_size
     (session (Finite (5 / 2)) [Put ''a'' 1, Put ''b'' 2, Put ''c'' (3 :: int)]) = Some 2 \<and>
   Finite (of_int 2) \<noteq> Finite (5 / 2)"
  by code_simp

text \<open>
  Claim C6, as the code has it. After any sequence of calls, a \<^verbatim>\<open>put(k, v)\<close> of a key
  that is present overwrites the value (\<^verbatim>\<open>peek\<close> returns \<open>v\<close>), makes the key's node
  the head (the same node the index mapped \<open>k\<close> to, now returned by
  \<^verbatim>\<open>getMostRecent()\<close>), and leaves the index, the size and the eviction, hit and miss
  counters unchanged; the other entries keep their order. Consequently
  \<^verbatim>\<open>put(k, v1)\<close> followed by \<^verbatim>\<open>put(k, v2)\<close> leaves the size as it was after the
  first put, and on a cache whose capacity is at least 1 a following \<^verbatim>\<open>get(k)\<close>
  returns \<open>v2\<close>.
\<close>

theorem put_present_overwrites:
  assumes "\<not> le_zero c"
  shows "\<exists>s s'. session c cs = Some s \<and> session c (cs @ [Put k v]) = Some s' \<and>
           (has k s \<longrightarrow>
              peek k s' = Some v \<and> getMostRecent s' = Some (k, v) \<and> head s' = cache s k \<and>
              cache s' = cache s \<and> lru_size s' = lru_size s \<and> evictions s' = evictions s \<and>
              hits s' = hits s \<and> misses s' = misses s \<and>
              entries s' = map_option (\<lambda>es. (k, v) # without k es) (entries s)) \<and>
           (\<exists>t u. session c (cs @ [Put k v1]) = Some t \<and>
              session c (cs @ [Put k v1, Put k v2]) = Some u \<and>
              lru_size u = lru_size t \<and>
              (at_most 1 c \<longrightarrow> fst (get k u) = Some v2))"
proof -
  from session_refines [OF assms, of cs] obtain s where
    s: "session c cs = Some s" and r: "refines s (entries_run c cs [])" and cap: "capacity s = c"
    by blast
  let ?es = "entries_run c cs []"
  have s': "session c (cs @ [Put k v]) = Some (put k v s)" using session_snoc [OF s] by simp
  have first: "peek k (put k v s) = Some v \<and> getMostRecent (put k v s) = Some (k, v) \<and>
      head (put k v s) = cache s k \<and> cache (put k v s) = cache s \<and>
      lru_size (put k v s) = lru_size s \<and> evictions (put k v s) = evictions s \<and>
      hits (put k v s) = hits s \<and> misses (put k v s) = misses s \<and>
      entries (put k v s) = map_option (\<lambda>es. (k, v) # without k es) (entries s)"
    if h: "has k s"
  proof -
    note p = put_present [OF r h, of v]
    have "peek k (put k v s) = Some v" using refines_ends(3) [OF p(1), of k] by simp
    moreover have "getMostRecent (put k v s) = Some (k, v)" using refines_ends(1) [OF p(1)] by simp
    moreover have "entries (put k v s) = map_option (\<lambda>es. (k, v) # without k es) (entries s)"
      using refines_entries(1) [OF p(1)] refines_entries(1) [OF r] by simp
    ultimately show ?thesis using p by (simp add: put_counters)
  qed
  let ?t = "put k v1 s"
  let ?u = "put k v2 ?t"
  have t: "session c (cs @ [Put k v1]) = Some ?t" using session_snoc [OF s] by simp
  have "session c ((cs @ [Put k v1]) @ [Put k v2]) = Some ?u" using session_snoc [OF t] by simp
  then have u: "session c (cs @ [Put k v1, Put k v2]) = Some ?u" by simp
  have size: "lru_size ?u = lru_size ?t" by (rule put_twice_size [OF r])
  have second: "fst (get k ?u) = Some v2" if one: "at_most 1 c"
  proof -
    obtain et where rt: "refines ?t et" using step_refines [OF r, of "Put k v1"] by auto
    have "\<not> exceeds 1 (capacity s)" using at_most_not_exceeds [OF one] cap by simp
    then have ht: "has k ?t" by (rule put_then_present [OF r])
    note p = put_present [OF rt ht, of v2]
    obtain rs where "rep ?u rs ((k, v2) # without k et)" using p(1) by (auto simp: refines_def)
    from get_rep(2) [OF this, of k] show ?thesis by simp
  qed
  show ?thesis using s s' first t u size second by blast
qed

text \<open>
  Claim C6 as stated fails on a cache the constructor accepts: with capacity \<open>1 / 2\<close>,
  \<^verbatim>\<open>put(k, 1)\<close> and \<^verbatim>\<open>put(k, 2)\<close> each evict the entry they insert, and a following
  \<^verbatim>\<open>get(k)\<close> returns undefined.
\<close>

theorem put_below_capacity_one_is_lost:
  "map_option (fst \<circ> get ''k'')
     (session (Finite (1 / 2)) [Put ''k'' 1, Put ''k'' (2 :: int)]) = Some None"
  by code_simp
section \<open>The standalone list\<close>

lemma dget_next_dset_next:
  "dget_next (dset_next h r v) = (if r \<in> dom h then (dget_next h)(r := v) else dget_next h)"
  by (auto simp: dget_next_def dset_next_def fun_eq_iff split: option.splits)

lemma dget_next_dset_prev: "dget_next (dset_prev h r v) = dget_next h"
  by (auto simp: dget_next_def dset_prev_def fun_eq_iff split: option.splits)

lemma dget_prev_dset_prev:
  "dget_prev (dset_prev h r v) = (if r \<in> dom h then (dget_prev h)(r := v) else dget_prev h)"
  by (auto simp: dget_prev_def dset_prev_def fun_eq_iff split: option.splits)

lemma dget_prev_dset_next: "dget_prev (dset_next h r v) = dget_prev h"
  by (auto simp: dget_prev_def dset_next_def fun_eq_iff split: option.splits)

lemma dom_dset: "dom (dset_prev h r p) = dom h" "dom (dset_next h r p) = dom h"
  by (auto simp: dset_prev_def dset_next_def split: option.splits)

lemma dset_other: "x \<noteq> r \<Longrightarrow> dset_prev h r p x = h x" "x \<noteq> r \<Longrightarrow> dset_next h r p x = h x"
  by (auto simp: dset_prev_def dset_next_def split: option.splits)

lemmas dstore_simps = dget_next_dset_next dget_next_dset_prev dget_prev_dset_prev
  dget_prev_dset_next dom_dset

lemma path_bypass:
  assumes p: "path f x (as @ r # bs) None" and d: "distinct (as @ r # bs)"
  shows "path (if as = [] then f else f(last as := f r))
           (if as = [] then f r else x) (as @ bs) None"
proof -
  from d have "r \<notin> set (as @ bs)" by auto
  from path_upd [OF this, of "if as = [] then f else f(last as := f r)" None]
    path_unlink [OF p d]
  show ?thesis by simp
qed

lemma removeFirst_dchain:
  assumes c: "dchain l (a # ds)"
  shows "dchain (snd (removeFirst l)) ds"
    and "dheap (snd (removeFirst l)) a = dheap l a"
    and "fst (removeFirst l) = dget_value (dheap l) a"
proof -
  from c have hd: "dhead l = Some a" and pn: "path (dget_next (dheap l)) (dget_next (dheap l) a) ds None"
    and pp: "path (dget_prev (dheap l)) (dtail l) (rev ds @ [a]) None"
    and d: "distinct (a # ds)" and sub: "set (a # ds) \<subseteq> dom (dheap l)"
    and sz: "dsize l = int (length (a # ds))"
    by (simp_all add: dchain_def)
  have nx: "dget_next (dheap l) a = first_or None ds" using pn by (rule path_first)
  show "fst (removeFirst l) = dget_value (dheap l) a"
    using hd by (simp add: removeFirst_def Let_def)
  have "dchain (snd (removeFirst l)) ds \<and> dheap (snd (removeFirst l)) a = dheap l a"
  proof (cases ds)
    case Nil
    then show ?thesis
      using hd nx sz by (simp add: removeFirst_def Let_def dchain_def)
  next
    case (Cons b ds')
    with pp have 1: "path (dget_prev (dheap l)) (dtail l) (rev ds') (Some b)"
      by (simp add: path_append)
    have b: "b \<in> dom (dheap l)" "b \<notin> set ds'" "b \<noteq> a" using Cons d sub by auto
    have "dchain (snd (removeFirst l)) ds"
      using hd nx sz Cons pn 1 b d sub
      by (simp add: removeFirst_def Let_def dchain_def dstore_simps path_append path_upd)
    moreover have "dheap (snd (removeFirst l)) a = dheap l a"
      using hd nx Cons b by (simp add: removeFirst_def Let_def dset_other)
    ultimately show ?thesis ..
  qed
  then show "dchain (snd (removeFirst l)) ds" "dheap (snd (removeFirst l)) a = dheap l a"
    by simp_all
qed

lemma removeLast_dchain:
  assumes c: "dchain l (ds @ [a])"
  shows "dchain (snd (removeLast l)) ds"
    and "dheap (snd (removeLast l)) a = dheap l a"
    and "fst (removeLast l) = dget_value (dheap l) a"
proof -
  from c have tl: "dtail l = Some a" and pp: "path (dget_prev (dheap l)) (dget_prev (dheap l) a) (rev ds) None"
    and pn: "path (dget_next (dheap l)) (dhead l) (ds @ [a]) None"
    and d: "distinct (ds @ [a])" and sub: "set (ds @ [a]) \<subseteq> dom (dheap l)"
    and sz: "dsize l = int (length (ds @ [a]))"
    by (simp_all add: dchain_def)
  have pv: "dget_prev (dheap l) a = first_or None (rev ds)" using pp by (rule path_first)
  show "fst (removeLast l) = dget_value (dheap l) a"
    using tl by (simp add: removeLast_def Let_def)
  have "dchain (snd (removeLast l)) ds \<and> dheap (snd (removeLast l)) a = dheap l a"
  proof (cases ds rule: rev_cases)
    case Nil
    then show ?thesis
      using tl pv sz by (simp add: removeLast_def Let_def dchain_def)
  next
    case (snoc ds' b)
    with pn have 1: "path (dget_next (dheap l)) (dhead l) ds' (Some b)"
      by (simp add: path_append)
    have b: "b \<in> dom (dheap l)" "b \<notin> set ds'" "b \<noteq> a" using snoc d sub by auto
    have "dchain (snd (removeLast l)) ds"
      using tl pv sz snoc pp 1 b d sub
      by (simp add: removeLast_def Let_def dchain_def dstore_simps path_append path_upd)
    moreover have "dheap (snd (removeLast l)) a = dheap l a"
      using tl pv snoc b by (simp add: removeLast_def Let_def dset_other)
    ultimately show ?thesis ..
  qed
  then show "dchain (snd (removeLast l)) ds" "dheap (snd (removeLast l)) a = dheap l a"
    by simp_all
qed

lemma follow_path:
  "path f x ds y \<Longrightarrow> i < length ds \<Longrightarrow> follow f i x = Inr (Some (ds ! i))"
proof (induction ds arbitrary: i x)
  case Nil
  then show ?case by simp
next
  case (Cons a ds)
  show ?case
  proof (cases i)
    case 0
    then show ?thesis using Cons.prems by simp
  next
    case (Suc j)
    then show ?thesis using Cons.prems Cons.IH [of "f a" j] by simp
  qed
qed

lemma from_head_steps:
  "getNodeAt_from_head f (Finite (of_int n)) i cur = Some (follow f (nat (n - i)) cur)"
proof (induction "nat (n - i)" arbitrary: i cur)
  case 0
  then have "\<not> i < n" by simp
  then show ?case using 0 by (subst getNodeAt_from_head.simps) simp
next
  case (Suc m)
  then have lt: "i < n" and m: "m = nat (n - (i + 1))" by linarith+
  show ?case
  proof (cases cur)
    case None
    then show ?thesis using lt Suc(2) [symmetric]
      by (subst getNodeAt_from_head.simps) simp
  next
    case (Some c)
    then show ?thesis using lt Suc(2) [symmetric] Suc(1) [OF m, of "f c"] m
      by (subst getNodeAt_from_head.simps) simp
  qed
qed

lemma from_tail_steps:
  "getNodeAt_from_tail f (Finite (of_int n)) i cur = Some (follow f (nat (i - n)) cur)"
proof (induction "nat (i - n)" arbitrary: i cur)
  case 0
  then have "\<not> n < i" by simp
  then show ?case using 0 by (subst getNodeAt_from_tail.simps) simp
next
  case (Suc m)
  then have lt: "n < i" and m: "m = nat (i - 1 - n)" by linarith+
  show ?case
  proof (cases cur)
    case None
    then show ?thesis using lt Suc(2) [symmetric]
      by (subst getNodeAt_from_tail.simps) simp
  next
    case (Some c)
    then show ?thesis using lt Suc(2) [symmetric] Suc(1) [OF m, of "f c"] m
      by (subst getNodeAt_from_tail.simps) simp
  qed
qed

lemma getNodeAt_dchain:
  assumes c: "dchain l ds" and i: "i < length ds"
  shows "getNodeAt (Finite (of_nat i)) l = Some (Inr (Some (ds ! i)))"
proof -
  from c have pn: "path (dget_next (dheap l)) (dhead l) ds None"
    and pp: "path (dget_prev (dheap l)) (dtail l) (rev ds) None"
    and sz: "dsize l = int (length ds)"
    by (simp_all add: dchain_def)
  have fi: "Finite (of_nat i) = Finite (of_int (int i))" by simp
  have 1: "follow (dget_next (dheap l)) i (dhead l) = Inr (Some (ds ! i))"
    by (rule follow_path [OF pn i])
  have j: "length ds - Suc i < length (rev ds)" using i by simp
  have "follow (dget_prev (dheap l)) (length ds - Suc i) (dtail l)
          = Inr (Some (rev ds ! (length ds - Suc i)))"
    by (rule follow_path [OF pp j])
  moreover have "rev ds ! (length ds - Suc i) = ds ! i" using i by (simp add: rev_nth)
  moreover have "nat (int (length ds) - 1 - int i) = length ds - Suc i" using i by simp
  ultimately have 2: "follow (dget_prev (dheap l)) (nat (dsize l - 1 - int i)) (dtail l)
          = Inr (Some (ds ! i))" using sz by simp
  have g: "\<not> (below (Finite (of_nat i)) 0 \<or> at_least (Finite (of_nat i)) (of_int (dsize l)))"
    using i sz by simp
  show ?thesis
    unfolding getNodeAt_def using g 1 2
    by (simp only: if_False fi from_head_steps from_tail_steps) simp
qed

lemma removeAt_middle:
  assumes c: "dchain l (as @ r # bs)" and ne: "as \<noteq> []" "bs \<noteq> []"
  shows "\<exists>l'. removeAt (Finite (of_nat (length as))) l = Some (Inr (dget_value (dheap l) r, l')) \<and>
           dchain l' (as @ bs) \<and> dheap l' r = dheap l r"
proof -
  let ?fn = "dget_next (dheap l)" and ?fp = "dget_prev (dheap l)"
  from c have pn: "path ?fn (dhead l) (as @ r # bs) None"
    and pp: "path ?fp (dtail l) (rev bs @ r # rev as) None"
    and d: "distinct (as @ r # bs)" and sub: "set (as @ r # bs) \<subseteq> dom (dheap l)"
    and sz: "dsize l = int (length (as @ r # bs))"
    by (simp_all add: dchain_def)
  from d have d': "distinct (rev bs @ r # rev as)" by auto
  have g: "getNodeAt (Finite (of_nat (length as))) l = Some (Inr (Some r))"
    using getNodeAt_dchain [OF c, of "length as"] by simp
  have "path ?fn (?fn r) bs None" using pn by (simp add: path_append)
  then have "?fn r = first_or None bs" by (rule path_first)
  then have nx: "?fn r = Some (hd bs)" using ne by (cases bs) auto
  have "path ?fp (?fp r) (rev as) None" using pp by (simp add: path_append)
  then have "?fp r = first_or None (rev as)" by (rule path_first)
  then have pv: "?fp r = Some (last as)" using ne by (cases as rule: rev_cases) auto
  have la: "last as \<in> dom (dheap l)" "last as \<noteq> r"
    using ne d sub last_in_set [of as] by (simp, blast, auto)
  have hb: "hd bs \<in> dom (dheap l)" "hd bs \<noteq> r"
    using ne d sub hd_in_set [of bs] by (simp, blast, auto)
  let ?h1 = "dset_next (dheap l) (last as) (?fn r)"
  let ?h2 = "dset_prev ?h1 (hd bs) (?fp r)"
  let ?l' = "l\<lparr>dheap := ?h2, dsize := dsize l - 1\<rparr>"
  have idx: "length as \<noteq> 0" "int (length as) \<noteq> dsize l - 1" "int (length as) < dsize l"
    using ne sz by auto
  have idx': "\<not> (below (Finite (of_nat (length as))) 0 \<or>
                at_least (Finite (of_nat (length as))) (of_int (dsize l)))"
    "Finite (of_nat (length as)) \<noteq> Finite 0"
    "Finite (of_nat (length as)) \<noteq> Finite (of_int (dsize l - 1))"
  proof -
    have "(of_nat (length as) :: rat) < of_int (dsize l)"
      using idx(3) by (metis of_int_less_iff of_int_of_nat_eq)
    then show "\<not> (below (Finite (of_nat (length as))) 0 \<or>
                at_least (Finite (of_nat (length as))) (of_int (dsize l)))" by simp
    show "Finite (of_nat (length as)) \<noteq> Finite 0" using idx(1) by simp
    have "(of_nat (length as) :: rat) \<noteq> of_int (dsize l - 1)"
      using idx(2) by (metis of_int_eq_iff of_int_of_nat_eq)
    then show "Finite (of_nat (length as)) \<noteq> Finite (of_int (dsize l - 1))" by simp
  qed
  have ra: "removeAt (Finite (of_nat (length as))) l = Some (Inr (dget_value (dheap l) r, ?l'))"
    unfolding removeAt_def using idx' g pv nx la hb
    by (simp only: if_False) (simp add: Let_def dstore_simps)
  have n2: "dget_next ?h2 = ?fn(last as := ?fn r)" using la hb by (simp add: dstore_simps)
  have p2: "dget_prev ?h2 = ?fp(hd bs := ?fp r)" using la hb by (simp add: dstore_simps)
  have 1: "path (dget_next ?h2) (dhead l) (as @ bs) None"
    using path_bypass [OF pn d] ne by (simp add: n2)
  have 2: "path (dget_prev ?h2) (dtail l) (rev (as @ bs)) None"
    using path_bypass [OF pp d'] ne by (simp add: p2 last_rev)
  have 3: "dchain ?l' (as @ bs)"
    using 1 2 d sub sz by (simp add: dchain_def dstore_simps)
  have 4: "dheap ?l' r = dheap l r" using la hb by (simp add: dset_other)
  show ?thesis using ra 3 4 by blast
qed

lemma removeAt_dchain:
  assumes c: "dchain l ds" and i: "i < length ds"
  shows "\<exists>l'. removeAt (Finite (of_nat i)) l = Some (Inr (dget_value (dheap l) (ds ! i), l')) \<and>
           dchain l' (take i ds @ drop (Suc i) ds) \<and> dheap l' (ds ! i) = dheap l (ds ! i)"
proof -
  from c have sz: "dsize l = int (length ds)" by (simp add: dchain_def)
  have split: "ds = take i ds @ ds ! i # drop (Suc i) ds" using i by (rule id_take_nth_drop)
  show ?thesis
  proof (cases "i = 0")
    case True
    then obtain a ds' where ds: "ds = a # ds'" using i by (cases ds) auto
    from removeFirst_dchain [OF c [unfolded ds]] show ?thesis
      using True ds sz by (simp add: removeAt_def prod_eq_iff)
  next
    case nz: False
    show ?thesis
    proof (cases "Suc i = length ds")
      case True
      then obtain ds' a where ds: "ds = ds' @ [a]" "length ds' = i"
        using i by (cases ds rule: rev_cases) auto
      from removeLast_dchain [OF c [unfolded ds(1)]] show ?thesis
        using True ds sz nz by (simp add: removeAt_def prod_eq_iff nth_append)
    next
      case False
      then have "take i ds \<noteq> []" "drop (Suc i) ds \<noteq> []" using nz i by auto
      moreover have "dchain l (take i ds @ ds ! i # drop (Suc i) ds)" using c split by simp
      ultimately show ?thesis
        using removeAt_middle [of l "take i ds" "ds ! i" "drop (Suc i) ds"] i by simp
    qed
  qed
qed

text \<open>
  Claim C9, as the code has it. In the cache, \<^verbatim>\<open>removeNode\<close> of a node of the chain
  leaves the other nodes as the chain, in their order and linked in both directions from
  the new head to the new tail, and clears the removed node's own \<^verbatim>\<open>prev\<close> and
  \<^verbatim>\<open>next\<close>. In the standalone list, \<^verbatim>\<open>removeFirst\<close>, \<^verbatim>\<open>removeLast\<close> and
  \<^verbatim>\<open>removeAt\<close> at an integer index within the list relink the remaining nodes in the
  same way (and count the size down), but leave the removed node itself exactly as it was,
  links included. (Nothing is said here of \<^verbatim>\<open>removeAt\<close> at an index that is not an
  integer; see \<open>removeAt_fraction\<close> below.)
\<close>

theorem detach_relinks_neighbours:
  "(chain s rs \<and> node \<in> set rs \<longrightarrow>
      chain (removeNode node s) (remove1 node rs) \<and>
      get_prev (heap (removeNode node s)) node = None \<and>
      get_next (heap (removeNode node s)) node = None) \<and>
   (dchain l ds \<and> ds \<noteq> [] \<longrightarrow>
      dchain (snd (removeFirst l)) (tl ds) \<and>
      dheap (snd (removeFirst l)) (hd ds) = dheap l (hd ds) \<and>
      dchain (snd (removeLast l)) (butlast ds) \<and>
      dheap (snd (removeLast l)) (last ds) = dheap l (last ds)) \<and>
   (dchain l ds \<and> i < length ds \<longrightarrow>
      (\<exists>l'. removeAt (Finite (of_nat i)) l = Some (Inr (dget_value (dheap l) (ds ! i), l')) \<and>
         dchain l' (take i ds @ drop (Suc i) ds) \<and>
         dheap l' (ds ! i) = dheap l (ds ! i)))"
proof -
  have 1: "chain (removeNode node s) (remove1 node rs) \<and>
      get_prev (heap (removeNode node s)) node = None \<and>
      get_next (heap (removeNode node s)) node = None"
    if "chain s rs" "node \<in> set rs"
    using that removeNode_chain removeNode_cleared by blast
  have 2: "dchain (snd (removeFirst l)) (tl ds) \<and>
      dheap (snd (removeFirst l)) (hd ds) = dheap l (hd ds) \<and>
      dchain (snd (removeLast l)) (butlast ds) \<and>
      dheap (snd (removeLast l)) (last ds) = dheap l (last ds)"
    if c: "dchain l ds" and ne: "ds \<noteq> []"
  proof -
    from ne obtain a ds' where a: "ds = a # ds'" by (cases ds) auto
    from ne obtain ds'' b where b: "ds = ds'' @ [b]" by (cases ds rule: rev_cases) auto
    show ?thesis
      using removeFirst_dchain(1,2) [OF c [unfolded a]] removeLast_dchain(1,2) [OF c [unfolded b]]
        a b by (metis butlast_snoc last_snoc list.sel(1) list.sel(3))
  qed
  show ?thesis using 1 2 removeAt_dchain by blast
qed

text \<open>
  Claim C9 as stated fails for the standalone list: in the list built by
  \<^verbatim>\<open>addFirst(1)\<close>, \<^verbatim>\<open>addFirst(2)\<close> the head is the node at address 1, and after
  \<^verbatim>\<open>removeFirst()\<close> that node's \<^verbatim>\<open>next\<close> still points at the node at address 0.
\<close>

theorem removeFirst_keeps_next_link:
  "dhead (addFirst 2 (addFirst (1 :: int) new_DoublyLinkedList)) = Some 1 \<and>
   dget_next (dheap (snd (removeFirst (addFirst 2 (addFirst (1 :: int) new_DoublyLinkedList)))))
     1 = Some 0"
  by code_simp

text \<open>
  At an index that is no integer \<^verbatim>\<open>removeAt\<close> passes its range check and its two
  boundary tests, and \<^verbatim>\<open>getNodeAt\<close> may hand it the tail: on the three-node list
  below, \<^verbatim>\<open>removeAt(2.5)\<close> returns the last value, unlinks the tail node from its
  predecessor and counts the size down, but \<^verbatim>\<open>this.tail\<close> still refers to the removed
  node. \<^verbatim>\<open>removeAt(NaN)\<close> does the same.
\<close>

lemma removeAt_fraction:
  "map_option (map_sum id fst)
     (removeAt (Finite (5 / 2)) (addLast 3 (addFirst 2 (addFirst (1 :: int) new_DoublyLinkedList))))
     = Some (Inr (Some 3)) \<and>
   map_option (map_sum id (dtail \<circ> snd))
     (removeAt (Finite (5 / 2)) (addLast 3 (addFirst 2 (addFirst (1 :: int) new_DoublyLinkedList))))
     = Some (Inr (Some 2)) \<and>
   map_option (map_sum id (dsize \<circ> snd))
     (removeAt (Finite (5 / 2)) (addLast 3 (addFirst 2 (addFirst (1 :: int) new_DoublyLinkedList))))
     = Some (Inr 2) \<and>
   dtail (addLast 3 (addFirst 2 (addFirst (1 :: int) new_DoublyLinkedList))) = Some 2 \<and>
   map_option (map_sum id (dtail \<circ> snd))
     (removeAt NaN (addLast 3 (addFirst 2 (addFirst (1 :: int) new_DoublyLinkedList))))
     = Some (Inr (Some 2))"
  by code_simp
section \<open>Instances\<close>

theorem index_matches_chain_witness:
  "\<not> le_zero (Finite 2) \<and>
   (\<exists>s rs. session (Finite 2)
        [Put ''a'' 1, Put ''b'' 2, Get ''a'', Put ''c'' 3, Delete ''a'', Put ''d'' (4 :: int)]
        = Some s \<and> chain s rs \<and>
      (\<forall>k. k \<in> dom (cache s) \<longleftrightarrow> (\<exists>r \<in> set rs. get_key (heap s) r = Some k)) \<and>
      (\<forall>k r. cache s k = Some r \<longrightarrow> r \<in> set rs \<and> get_key (heap s) r = Some k) \<and>
      lru_size s = int (card (dom (cache s))) \<and> lru_size s = int (length rs))"
  using index_matches_chain [of "Finite 2"
      "[Put ''a'' 1, Put ''b'' 2, Get ''a'', Put ''c'' 3, Delete ''a'', Put ''d'' (4 :: int)]"]
  by simp

theorem size_within_capacity_and_tally_witness:
  "\<not> le_zero (Finite 2) \<and> Finite 2 \<noteq> NaN \<and>
   (\<exists>s t. session (Finite 2)
        [Put ''a'' 1, Put ''b'' 2, Put ''c'' 3, Delete ''b'', Put ''a'' (4 :: int)] = Some s \<and>
      session_tally (Finite 2)
        [Put ''a'' 1, Put ''b'' 2, Put ''c'' 3, Delete ''b'', Put ''a'' (4 :: int)] = Some t \<and>
      at_most (lru_size s) (Finite 2) \<and>
      lru_size s = inserted t - deleted t - evicted t)"
  using size_within_capacity_and_tally [of "Finite 2"
      "[Put ''a'' 1, Put ''b'' 2, Put ''c'' 3, Delete ''b'', Put ''a'' (4 :: int)]"]
  by simp

theorem put_absent_evicts_tail_witness:
  "\<not> le_zero (Finite 3) \<and> positive_integer (Finite 3) \<and> at_most 1 (Finite 3) \<and>
   (\<exists>s s'. session (Finite 3) [Put ''a'' 1, Put ''b'' 2, Put ''c'' 3, Get ''a'' :: (string, int) call]
        = Some s \<and>
      session (Finite 3) ([Put ''a'' 1, Put ''b'' 2, Put ''c'' 3, Get ''a''] @ [Put ''d'' (4 :: int)])
        = Some s' \<and>
      \<not> has ''d'' s \<and> exceeds (lru_size s + 1) (Finite 3) \<and> lru_size s \<noteq> 0 \<and>
      evictions s' = evictions s + 1 \<and> lru_size s' = lru_size s \<and>
      Finite 3 = Finite (of_int (lru_size s')) \<and>
      (\<exists>kt vt. getLeastRecent s = Some (kt, vt) \<and> \<not> has kt s')) \<and>
   \<not> le_zero (Finite (1 / 2)) \<and>
   (\<exists>s s'. session (Finite (1 / 2)) ([] :: (string, int) call list) = Some s \<and>
      session (Finite (1 / 2)) ([] @ [Put ''a'' (1 :: int)]) = Some s' \<and>
      \<not> has ''a'' s \<and> exceeds (lru_size s + 1) (Finite (1 / 2)) \<and> lru_size s = 0 \<and>
      evictions s' = evictions s + 1 \<and> (\<forall>k'. \<not> has k' s'))"
proof -
  let ?cs = "[Put ''a'' 1, Put ''b'' 2, Put ''c'' 3, Get ''a'' :: (string, int) call]"
  let ?no = "[] :: (string, int) call list"
  have p: "\<not> le_zero (Finite 3)" "positive_integer (Finite 3)" "at_most 1 (Finite 3)"
    "\<not> le_zero (Finite (1 / 2))" by simp_all
  have e1: "map_option (has ''d'') (session (Finite 3) ?cs) = Some False" by code_simp
  have e2: "map_option lru_size (session (Finite 3) ?cs) = Some 3" by code_simp
  have e3: "map_option (has ''a'') (session (Finite (1 / 2)) ?no) = Some False" by code_simp
  have e4: "map_option lru_size (session (Finite (1 / 2)) ?no) = Some 0" by code_simp
  from put_absent_evicts_tail [OF p(1), where cs = ?cs and k = "''d''" and v = 4]
  obtain s s' where a: "session (Finite 3) ?cs = Some s"
      "session (Finite 3) (?cs @ [Put ''d'' 4]) = Some s'"
    and i: "\<not> has ''d'' s \<and> exceeds (lru_size s + 1) (Finite 3) \<longrightarrow>
              entries s' = map_option (\<lambda>es. butlast ((''d'', 4) # es)) (entries s) \<and>
              evictions s' = evictions s + 1 \<and> lru_size s' = lru_size s \<and>
              hits s' = hits s \<and> misses s' = misses s \<and>
              (lru_size s \<noteq> 0 \<longrightarrow>
                 (\<exists>kt vt. getLeastRecent s = Some (kt, vt) \<and> \<not> has kt s' \<and>
                    (\<forall>k'. has k' s' \<longleftrightarrow> k' = ''d'' \<or> (has k' s \<and> k' \<noteq> kt)))) \<and>
              (lru_size s = 0 \<longrightarrow> (\<forall>k'. \<not> has k' s')) \<and>
              (at_most 1 (Finite 3) \<longrightarrow> lru_size s \<noteq> 0) \<and>
              (positive_integer (Finite 3) \<longrightarrow> Finite 3 = Finite (of_int (lru_size s')))"
    by blast
  from a(1) e1 e2 have h: "\<not> has ''d'' s" "lru_size s = 3" by simp_all
  then have x: "exceeds (lru_size s + 1) (Finite 3)" "lru_size s \<noteq> 0" by simp_all
  from i h(1) x p have one: "evictions s' = evictions s + 1 \<and> lru_size s' = lru_size s \<and>
      Finite 3 = Finite (of_int (lru_size s')) \<and>
      (\<exists>kt vt. getLeastRecent s = Some (kt, vt) \<and> \<not> has kt s')" by blast
  from put_absent_evicts_tail [OF p(4), where cs = ?no and k = "''a''" and v = 1]
  obtain z z' where b: "session (Finite (1 / 2)) ?no = Some z"
      "session (Finite (1 / 2)) (?no @ [Put ''a'' 1]) = Some z'"
    and j: "\<not> has ''a'' z \<and> exceeds (lru_size z + 1) (Finite (1 / 2)) \<longrightarrow>
              entries z' = map_option (\<lambda>es. butlast ((''a'', 1) # es)) (entries z) \<and>
              evictions z' = evictions z + 1 \<and> lru_size z' = lru_size z \<and>
              hits z' = hits z \<and> misses z' = misses z \<and>
              (lru_size z \<noteq> 0 \<longrightarrow>
                 (\<exists>kt vt. getLeastRecent z = Some (kt, vt) \<and> \<not> has kt z' \<and>
                    (\<forall>k'. has k' z' \<longleftrightarrow> k' = ''a'' \<or> (has k' z \<and> k' \<noteq> kt)))) \<and>
              (lru_size z = 0 \<longrightarrow> (\<forall>k'. \<not> has k' z')) \<and>
              (at_most 1 (Finite (1 / 2)) \<longrightarrow> lru_size z \<noteq> 0) \<and>
              (positive_integer (Finite (1 / 2)) \<longrightarrow> Finite (1 / 2) = Finite (of_int (lru_size z')))"
    by blast
  from b(1) e3 e4 have g: "\<not> has ''a'' z" "lru_size z = 0" by simp_all
  then have y: "exceeds (lru_size z + 1) (Finite (1 / 2))" by simp
  from j g y have two: "evictions z' = evictions z + 1 \<and> (\<forall>k'. \<not> has k' z')" by blast
  from p a h(1) x one b g y two show ?thesis by blast
qed

theorem recency_among_present_witness:
  "\<not> le_zero (Finite 2) \<and>
   (\<exists>s ks. session (Finite 2) [Put ''a'' 1, Put ''b'' 2, Get ''a'', Put ''c'' (3 :: int)] = Some s \<and>
      session_touches (Finite 2) [Put ''a'' 1, Put ''b'' 2, Get ''a'', Put ''c'' (3 :: int)]
        = Some ks \<and>
      keys s = Some (rev (remdups (filter (\<lambda>k. has k s) ks))) \<and> lru_size s \<noteq> 0 \<and>
      (\<exists>v w. getMostRecent s = Some (last (filter (\<lambda>k. has k s) ks), v) \<and>
             getLeastRecent s = Some (hd (remdups (filter (\<lambda>k. has k s) ks)), w)))"
proof -
  let ?cs = "[Put ''a'' 1, Put ''b'' 2, Get ''a'', Put ''c'' (3 :: int)]"
  have p: "\<not> le_zero (Finite 2)" by simp
  have e: "map_option lru_size (session (Finite 2) ?cs) = Some 2" by code_simp
  from recency_among_present [OF p, of ?cs]
  obtain s ks where a: "session (Finite 2) ?cs = Some s" "session_touches (Finite 2) ?cs = Some ks"
      "keys s = Some (rev (remdups (filter (\<lambda>k. has k s) ks)))"
    and i: "lru_size s \<noteq> 0 \<longrightarrow>
              (\<exists>v w. getMostRecent s = Some (last (filter (\<lambda>k. has k s) ks), v) \<and>
                     getLeastRecent s = Some (hd (remdups (filter (\<lambda>k. has k s) ks)), w))"
    by blast
  from a(1) e have n: "lru_size s \<noteq> 0" by simp
  with p a i show ?thesis by blast
qed

theorem hits_plus_misses_count_gets_witness:
  "\<not> le_zero (Finite 2) \<and>
   (\<exists>s. session (Finite 2) [Get ''a'', Put ''a'' 1, ResetStats, Get ''a'', Get ''b'' :: (string, int) call]
        = Some s \<and>
      hits s + misses s = 2 \<and> hitRate s = of_int (hits s) / of_int (hits s + misses s))"
  using hits_plus_misses_count_gets [of "Finite 2"
      "[Get ''a'', Put ''a'' 1, ResetStats, Get ''a'', Get ''b'' :: (string, int) call]"]
  by simp

theorem put_present_overwrites_witness:
  "\<not> le_zero (Finite 2) \<and> at_most 1 (Finite 2) \<and>
   (\<exists>s s'. session (Finite 2) [Put ''a'' 1, Put ''b'' (2 :: int)] = Some s \<and>
      session (Finite 2) ([Put ''a'' 1, Put ''b'' 2] @ [Put ''a'' (7 :: int)]) = Some s' \<and>
      has ''a'' s \<and> peek ''a'' s' = Some 7 \<and> getMostRecent s' = Some (''a'', 7) \<and>
      head s' = cache s ''a'' \<and> cache s' = cache s \<and> lru_size s' = lru_size s \<and>
      evictions s' = evictions s \<and> hits s' = hits s \<and> misses s' = misses s) \<and>
   (\<exists>t u. session (Finite 2) ([Put ''a'' 1, Put ''b'' 2] @ [Put ''a'' (5 :: int)]) = Some t \<and>
      session (Finite 2) ([Put ''a'' 1, Put ''b'' 2] @ [Put ''a'' 5, Put ''a'' (6 :: int)]) = Some u \<and>
      lru_size u = lru_size t \<and> fst (get ''a'' u) = Some 6)"
proof -
  let ?cs = "[Put ''a'' 1, Put ''b'' (2 :: int)]"
  have p: "\<not> le_zero (Finite 2)" "at_most 1 (Finite 2)" by simp_all
  have e: "map_option (has ''a'') (session (Finite 2) ?cs) = Some True" by code_simp
  from put_present_overwrites [OF p(1), where cs = ?cs and k = "''a''" and v = 7 and ?v1.0 = 5
      and ?v2.0 = 6]
  obtain s s' t u where a: "session (Finite 2) ?cs = Some s"
      "session (Finite 2) (?cs @ [Put ''a'' 7]) = Some s'"
    and i: "has ''a'' s \<longrightarrow>
              peek ''a'' s' = Some 7 \<and> getMostRecent s' = Some (''a'', 7) \<and>
              head s' = cache s ''a'' \<and>
              cache s' = cache s \<and> lru_size s' = lru_size s \<and> evictions s' = evictions s \<and>
              hits s' = hits s \<and> misses s' = misses s \<and>
              entries s' = map_option (\<lambda>es. (''a'', 7) # without ''a'' es) (entries s)"
    and b: "session (Finite 2) (?cs @ [Put ''a'' 5]) = Some t"
      "session (Finite 2) (?cs @ [Put ''a'' 5, Put ''a'' 6]) = Some u"
      "lru_size u = lru_size t"
    and j: "at_most 1 (Finite 2) \<longrightarrow> fst (get ''a'' u) = Some 6"
    by blast
  from a(1) e have h: "has ''a'' s" by simp
  from p a i b j h show ?thesis by blast
qed

theorem reads_do_not_interfere_witness:
  "is_read (Has ''a'' :: (string, int) call) \<and> is_read (Peek ''b'' :: (string, int) call) \<and>
   session (Finite 2) ([Put ''a'' 1, Put ''b'' 2] @ [Has ''a'', Peek ''b''] @ [Put ''c'' (3 :: int)])
     = session (Finite 2) ([Put ''a'' 1, Put ''b'' 2] @ [Put ''c'' (3 :: int)])"
proof -
  have r: "\<forall>c \<in> set [Has ''a'', Peek ''b'' :: (string, int) call]. is_read c" by simp
  from reads_do_not_interfere [where reads = "[Has ''a'', Peek ''b'' :: (string, int) call]"
      and ?cs1.0 = "[Put ''a'' 1, Put ''b'' 2]" and ?cs2.0 = "[Put ''c'' 3]" and c = "Finite 2"] r
  have "session (Finite 2) ([Put ''a'' 1, Put ''b'' 2] @ [Has ''a'', Peek ''b''] @ [Put ''c'' (3 :: int)])
     = session (Finite 2) ([Put ''a'' 1, Put ''b'' 2] @ [Put ''c'' (3 :: int)])" by blast
  then show ?thesis by simp
qed

theorem resetStats_frame_witness:
  "hits (resetStats (snd (get ''a'' (put ''a'' (1 :: int)
      \<lparr>capacity = Finite 2, cache = Map.empty, head = None, tail = None, lru_size = 0,
       hits = 0, misses = 0, evictions = 0, heap = Map.empty, fresh = 0\<rparr>)))) = 0 \<and>
   lru_size (resetStats (snd (get ''a'' (put ''a'' (1 :: int)
      \<lparr>capacity = Finite 2, cache = Map.empty, head = None, tail = None, lru_size = 0,
       hits = 0, misses = 0, evictions = 0, heap = Map.empty, fresh = 0\<rparr>)))) =
   lru_size (snd (get ''a'' (put ''a'' (1 :: int)
      \<lparr>capacity = Finite 2, cache = Map.empty, head = None, tail = None, lru_size = 0,
       hits = 0, misses = 0, evictions = 0, heap = Map.empty, fresh = 0\<rparr>))) \<and>
   keys (resetStats (snd (get ''a'' (put ''a'' (1 :: int)
      \<lparr>capacity = Finite 2, cache = Map.empty, head = None, tail = None, lru_size = 0,
       hits = 0, misses = 0, evictions = 0, heap = Map.empty, fresh = 0\<rparr>)))) =
   keys (snd (get ''a'' (put ''a'' (1 :: int)
      \<lparr>capacity = Finite 2, cache = Map.empty, head = None, tail = None, lru_size = 0,
       hits = 0, misses = 0, evictions = 0, heap = Map.empty, fresh = 0\<rparr>)))"
  using resetStats_frame [of "snd (get ''a'' (put ''a'' (1 :: int)
      \<lparr>capacity = Finite 2, cache = Map.empty, head = None, tail = None, lru_size = 0,
       hits = 0, misses = 0, evictions = 0, heap = Map.empty, fresh = 0\<rparr>))" "''a''"]
  by blast

theorem detach_relinks_neighbours_witness:
  "chain (put ''b'' 2 (put ''a'' (1 :: int)
      \<lparr>capacity = Finite 3, cache = Map.empty, head = None, tail = None, lru_size = 0,
       hits = 0, misses = 0, evictions = 0, heap = Map.empty, fresh = 0\<rparr>)) [1, 0] \<and>
   (0 :: nat) \<in> set [1, 0] \<and>
   chain (removeNode 0 (put ''b'' 2 (put ''a'' (1 :: int)
      \<lparr>capacity = Finite 3, cache = Map.empty, head = None, tail = None, lru_size = 0,
       hits = 0, misses = 0, evictions = 0, heap = Map.empty, fresh = 0\<rparr>))) (remove1 0 [1, 0]) \<and>
   get_prev (heap (removeNode 0 (put ''b'' 2 (put ''a'' (1 :: int)
      \<lparr>capacity = Finite 3, cache = Map.empty, head = None, tail = None, lru_size = 0,
       hits = 0, misses = 0, evictions = 0, heap = Map.empty, fresh = 0\<rparr>)))) 0 = None \<and>
   get_next (heap (removeNode 0 (put ''b'' 2 (put ''a'' (1 :: int)
      \<lparr>capacity = Finite 3, cache = Map.empty, head = None, tail = None, lru_size = 0,
       hits = 0, misses = 0, evictions = 0, heap = Map.empty, fresh = 0\<rparr>)))) 0 = None \<and>
   dchain (addLast 3 (addFirst 2 (addFirst (1 :: int) new_DoublyLinkedList))) [1, 0, 2] \<and>
   [1, 0, 2 :: nat] \<noteq> [] \<and> (1 :: nat) < length [1, 0, 2 :: nat] \<and>
   dchain (snd (removeFirst (addLast 3 (addFirst 2 (addFirst (1 :: int) new_DoublyLinkedList)))))
     (tl [1, 0, 2]) \<and>
   dchain (snd (removeLast (addLast 3 (addFirst 2 (addFirst (1 :: int) new_DoublyLinkedList)))))
     (butlast [1, 0, 2]) \<and>
   (\<exists>l'. removeAt (Finite (of_nat 1))
            (addLast 3 (addFirst 2 (addFirst (1 :: int) new_DoublyLinkedList)))
          = Some (Inr (dget_value (dheap (addLast 3 (addFirst 2 (addFirst (1 :: int)
                   new_DoublyLinkedList)))) ([1, 0, 2] ! 1), l')) \<and>
      dchain l' (take 1 [1, 0, 2] @ drop (Suc 1) [1, 0, 2]))"
proof -
  let ?s = "put ''b'' 2 (put ''a'' (1 :: int)
      \<lparr>capacity = Finite 3, cache = Map.empty, head = None, tail = None, lru_size = 0,
       hits = 0, misses = 0, evictions = 0, heap = Map.empty, fresh = 0\<rparr>)"
  let ?l = "addLast 3 (addFirst 2 (addFirst (1 :: int) new_DoublyLinkedList))"
  have c: "chain ?s [1, 0]"
    by (simp add: chain_def put_def addToHead_def Let_def set_prev_def set_next_def
        get_prev_def get_next_def)
  have d: "dchain ?l [1, 0, 2]"
    by (simp add: dchain_def addLast_def addFirst_def new_DoublyLinkedList_def Let_def
        dset_prev_def dset_next_def dget_prev_def dget_next_def)
  have m: "(0 :: nat) \<in> set [1, 0]" "[1, 0, 2 :: nat] \<noteq> []" "(1 :: nat) < length [1, 0, 2 :: nat]"
    by simp_all
  from detach_relinks_neighbours [of ?s "[1, 0]" 0 ?l "[1, 0, 2]" 1] c d m
  show ?thesis by blast
qed

end
